theory Spec2Isabelle
  imports Main "HOL-Library.Word"
begin

section \<open>Machine types\<close>

text \<open>
  The adapter is compiled for WebAssembly (the source says so: "Custom memory writer for
  WASM"), where \<open>size_t\<close> and \<open>int\<close> are both 32 bits wide. Arithmetic on \<open>size_t\<close>
  wraps modulo \<open>2 ^ 32\<close>. A pointer is a block identifier, \<open>0\<close> being \<open>NULL\<close>.
\<close>

type_synonym byte = "8 word"
type_synonym size_t = "32 word"
type_synonym c_int = "32 word"
type_synonym ptr = nat

text \<open>What a call does when it does not return: it leaves defined behaviour, or it loops.\<close>

datatype fault = Undefined_Behaviour | Nontermination

section \<open>The C library: a heap of blocks\<close>

text \<open>
  The allocator is not part of the program. What it answers to each \<open>realloc\<close> call is
  taken from the list \<open>replies\<close>: \<open>Refuse\<close> is a \<open>NULL\<close> result, \<open>Grant junk\<close> a fresh block
  whose bytes beyond the old contents are the indeterminate values \<open>junk\<close>. An exhausted
  list refuses. A granted block gets the identifier after \<open>nextblock\<close>, never \<open>0\<close>.
\<close>

datatype reply = Refuse | Grant "nat \<Rightarrow> byte"

record heap =
  blocks :: "ptr \<rightharpoonup> byte list"
  nextblock :: nat
  replies :: "reply list"

definition realloc :: "heap \<Rightarrow> ptr \<Rightarrow> size_t \<Rightarrow> fault + (heap \<times> ptr)" where
  "realloc h p n =
     (if p \<noteq> 0 \<and> blocks h p = None then Inl Undefined_Behaviour
      else case replies h of
        [] \<Rightarrow> Inr (h, 0)
      | Refuse # rs \<Rightarrow> Inr (h\<lparr>replies := rs\<rparr>, 0)
      | Grant junk # rs \<Rightarrow>
          (let old = (if p = 0 then [] else case blocks h p of None \<Rightarrow> [] | Some b \<Rightarrow> b);
               q = Suc (nextblock h);
               new = take (unat n) old @ map junk [length old ..< unat n];
               kept = (if p = 0 then blocks h else (blocks h)(p := None))
           in Inr (h\<lparr>blocks := kept(q \<mapsto> new), nextblock := q, replies := rs\<rparr>, q)))"

definition free :: "heap \<Rightarrow> ptr \<Rightarrow> fault + heap" where
  "free h p =
     (if p = 0 then Inr h
      else if blocks h p = None then Inl Undefined_Behaviour
      else Inr (h\<lparr>blocks := (blocks h)(p := None)\<rparr>))"

text \<open>
  \<open>memcpy h p off src\<close> writes the bytes \<open>src\<close> at offset \<open>off\<close> of block \<open>p\<close>. Writing past
  the end of the block, or through \<open>NULL\<close> or a dangling pointer, is undefined behaviour;
  copying nothing is taken as a no-operation.
\<close>

definition memcpy :: "heap \<Rightarrow> ptr \<Rightarrow> nat \<Rightarrow> byte list \<Rightarrow> fault + heap" where
  "memcpy h p off src =
     (if src = [] then Inr h
      else if p = 0 then Inl Undefined_Behaviour
      else case blocks h p of
        None \<Rightarrow> Inl Undefined_Behaviour
      | Some b \<Rightarrow>
          if off + length src \<le> length b
          then Inr (h\<lparr>blocks := (blocks h)(p \<mapsto> take off b @ src @ drop (off + length src) b)\<rparr>)
          else Inl Undefined_Behaviour)"

section \<open>The write context and the append operation\<close>

record WriteContext =
  ctx_data :: ptr
  ctx_size :: size_t
  ctx_capacity :: size_t

text \<open>The loop \<open>while (new_capacity < ctx->size + size) new_capacity *= 2;\<close>\<close>

partial_function (option) double_until :: "size_t \<Rightarrow> size_t \<Rightarrow> size_t option" where
  "double_until new_capacity need =
     (if new_capacity < need then double_until (new_capacity * 2) need
      else Some new_capacity)"

text \<open>The last two statements of \<open>write_callback\<close>: copy the chunk, advance \<open>size\<close>.\<close>

definition copy_and_advance ::
  "heap \<Rightarrow> WriteContext \<Rightarrow> byte list \<Rightarrow> fault + (heap \<times> WriteContext)" where
  "copy_and_advance h ctx chunk =
     (case memcpy h (ctx_data ctx) (unat (ctx_size ctx)) chunk of
        Inl f \<Rightarrow> Inl f
      | Inr h' \<Rightarrow> Inr (h', ctx\<lparr>ctx_size := ctx_size ctx + of_nat (length chunk)\<rparr>))"

text \<open>
  \<open>write_callback\<close>. The pair \<open>(data, size)\<close> of the source is the byte list \<open>chunk\<close>,
  \<open>size\<close> being its length; a length that is no non-negative \<open>int\<close> cannot be passed.
\<close>

definition write_callback ::
  "heap \<Rightarrow> WriteContext \<Rightarrow> byte list \<Rightarrow> fault + (heap \<times> WriteContext)" where
  "write_callback h ctx chunk =
     (if 2 ^ 31 \<le> length chunk then Inl Undefined_Behaviour
      else if ctx_size ctx + of_nat (length chunk) > ctx_capacity ctx then
        (case double_until (if ctx_capacity ctx = 0 then 4096 else ctx_capacity ctx * 2)
                (ctx_size ctx + of_nat (length chunk)) of
           None \<Rightarrow> Inl Nontermination
         | Some new_capacity \<Rightarrow>
             (case realloc h (ctx_data ctx) new_capacity of
                Inl f \<Rightarrow> Inl f
              | Inr (h1, new_data) \<Rightarrow>
                  if new_data = 0 then Inr (h1, ctx)
                  else copy_and_advance h1
                         (ctx\<lparr>ctx_data := new_data, ctx_capacity := new_capacity\<rparr>) chunk))
      else copy_and_advance h ctx chunk)"

section \<open>The external encoder\<close>

text \<open>
  The encoders of \<open>stb_image_write.h\<close> are not part of the adapter. The spec gives their
  contract: "given pixel data, dimensions, component count, a format-specific parameter, and
  a sink callback, invoke the sink zero or more times with sequential byte chunks
  representing the encoded image, then report overall success or failure." The sink returns
  nothing and its context is opaque to the encoder, so what an encoder emits is a function
  of its arguments: the chunks, in order, and the result. \<open>'px\<close> is the pixel data. What
  an encoder allocates and frees for itself is left out of the heap.
\<close>

type_synonym 'px encoder = "c_int \<Rightarrow> c_int \<Rightarrow> c_int \<Rightarrow> 'px \<Rightarrow> c_int \<Rightarrow> byte list list \<times> c_int"

type_synonym sink = "heap \<Rightarrow> WriteContext \<Rightarrow> byte list \<Rightarrow> fault + (heap \<times> WriteContext)"

text \<open>The calls of the sink, one per chunk, each on the state the one before left.\<close>

fun sink_all :: "sink \<Rightarrow> heap \<Rightarrow> WriteContext \<Rightarrow> byte list list \<Rightarrow> fault + (heap \<times> WriteContext)" where
  "sink_all func h ctx [] = Inr (h, ctx)"
| "sink_all func h ctx (c # cs) =
     (case func h ctx c of Inl f \<Rightarrow> Inl f | Inr (h', ctx') \<Rightarrow> sink_all func h' ctx' cs)"

text \<open>
  Modelled from the spec: \<open>stbi_write_png_to_func\<close>, the PNG encoder of
  \<open>stb_image_write.h\<close>, which is not among the sources. It passes the chunks of \<open>enc\<close> to
  \<open>func\<close> and returns the result of \<open>enc\<close>.
\<close>

definition stbi_write_png_to_func ::
  "'px encoder \<Rightarrow> sink \<Rightarrow> heap \<Rightarrow> WriteContext \<Rightarrow> c_int \<Rightarrow> c_int \<Rightarrow> c_int \<Rightarrow> 'px \<Rightarrow> c_int
     \<Rightarrow> fault + (heap \<times> WriteContext \<times> c_int)" where
  "stbi_write_png_to_func enc func h ctx w hh comps px stride_in_bytes =
     (case sink_all func h ctx (fst (enc w hh comps px stride_in_bytes)) of
        Inl f \<Rightarrow> Inl f
      | Inr (h', ctx') \<Rightarrow> Inr (h', ctx', snd (enc w hh comps px stride_in_bytes)))"

text \<open>
  Modelled from the spec: \<open>stbi_write_jpg_to_func\<close>, the JPEG encoder of
  \<open>stb_image_write.h\<close>, which is not among the sources; as the PNG encoder, with the
  quality in place of the stride.
\<close>

definition stbi_write_jpg_to_func ::
  "'px encoder \<Rightarrow> sink \<Rightarrow> heap \<Rightarrow> WriteContext \<Rightarrow> c_int \<Rightarrow> c_int \<Rightarrow> c_int \<Rightarrow> 'px \<Rightarrow> c_int
     \<Rightarrow> fault + (heap \<times> WriteContext \<times> c_int)" where
  "stbi_write_jpg_to_func enc func h ctx w hh comps px quality =
     (case sink_all func h ctx (fst (enc w hh comps px quality)) of
        Inl f \<Rightarrow> Inl f
      | Inr (h', ctx') \<Rightarrow> Inr (h', ctx', snd (enc w hh comps px quality)))"

section \<open>The adapters\<close>

text \<open>
  What a call leaves behind: the heap, the caller's two slots \<open>*output\<close> and
  \<open>*output_len\<close>, and the returned \<open>int\<close>. The arguments \<open>output\<close> and \<open>output_len\<close> of the
  model are the contents of the two slots before the call.
\<close>

record returned =
  mem :: heap
  output_slot :: ptr
  output_len_slot :: size_t
  retval :: c_int

text \<open>The initialiser \<open>WriteContext ctx = { NULL, 0, 0 }\<close>.\<close>

definition empty_ctx :: WriteContext where
  "empty_ctx = \<lparr>ctx_data = 0, ctx_size = 0, ctx_capacity = 0\<rparr>"

definition stb_write_png_to_memory ::
  "'px encoder \<Rightarrow> heap \<Rightarrow> ptr \<Rightarrow> size_t \<Rightarrow> c_int \<Rightarrow> c_int \<Rightarrow> c_int \<Rightarrow> 'px \<Rightarrow> c_int
     \<Rightarrow> fault + returned" where
  "stb_write_png_to_memory enc h output output_len w hh comps px stride_in_bytes =
     (case stbi_write_png_to_func enc write_callback h empty_ctx w hh comps px stride_in_bytes of
        Inl f \<Rightarrow> Inl f
      | Inr (h1, ctx, result) \<Rightarrow>
          if result \<noteq> 0 \<and> ctx_size ctx > 0
          then Inr \<lparr>mem = h1, output_slot = ctx_data ctx, output_len_slot = ctx_size ctx,
                    retval = 1\<rparr>
          else if ctx_data ctx \<noteq> 0
          then (case free h1 (ctx_data ctx) of
                  Inl f \<Rightarrow> Inl f
                | Inr h2 \<Rightarrow> Inr \<lparr>mem = h2, output_slot = output, output_len_slot = output_len,
                                  retval = 0\<rparr>)
          else Inr \<lparr>mem = h1, output_slot = output, output_len_slot = output_len, retval = 0\<rparr>)"

definition stb_write_jpg_to_memory ::
  "'px encoder \<Rightarrow> heap \<Rightarrow> ptr \<Rightarrow> size_t \<Rightarrow> c_int \<Rightarrow> c_int \<Rightarrow> c_int \<Rightarrow> 'px \<Rightarrow> c_int
     \<Rightarrow> fault + returned" where
  "stb_write_jpg_to_memory enc h output output_len w hh comps px quality =
     (case stbi_write_jpg_to_func enc write_callback h empty_ctx w hh comps px quality of
        Inl f \<Rightarrow> Inl f
      | Inr (h1, ctx, result) \<Rightarrow>
          if result \<noteq> 0 \<and> ctx_size ctx > 0
          then Inr \<lparr>mem = h1, output_slot = ctx_data ctx, output_len_slot = ctx_size ctx,
                    retval = 1\<rparr>
          else if ctx_data ctx \<noteq> 0
          then (case free h1 (ctx_data ctx) of
                  Inl f \<Rightarrow> Inl f
                | Inr h2 \<Rightarrow> Inr \<lparr>mem = h2, output_slot = output, output_len_slot = output_len,
                                  retval = 0\<rparr>)
          else Inr \<lparr>mem = h1, output_slot = output, output_len_slot = output_len, retval = 0\<rparr>)"

section \<open>Predicates on states\<close>

text \<open>
  The context describes its block: \<open>data\<close> is \<open>NULL\<close> with nothing stored, or a live block
  of \<open>capacity\<close> bytes of which \<open>size\<close> are in use.
\<close>

definition ctx_ok :: "heap \<Rightarrow> WriteContext \<Rightarrow> bool" where
  "ctx_ok h ctx \<longleftrightarrow>
     (if ctx_data ctx = 0 then ctx_capacity ctx = 0 \<and> ctx_size ctx = 0
      else (case blocks h (ctx_data ctx) of
              None \<Rightarrow> False
            | Some b \<Rightarrow> length b = unat (ctx_capacity ctx) \<and> ctx_size ctx \<le> ctx_capacity ctx))"

text \<open>The bytes stored so far: the first \<open>size\<close> bytes of the block.\<close>

definition stored :: "heap \<Rightarrow> WriteContext \<Rightarrow> byte list" where
  "stored h ctx =
     (if ctx_data ctx = 0 then []
      else case blocks h (ctx_data ctx) of
             None \<Rightarrow> []
           | Some b \<Rightarrow> take (unat (ctx_size ctx)) b)"

text \<open>The append is dropped: the buffer must grow and the allocator does not grant it.\<close>

definition refused :: "heap \<Rightarrow> WriteContext \<Rightarrow> byte list \<Rightarrow> bool" where
  "refused h ctx chunk \<longleftrightarrow>
     ctx_capacity ctx < ctx_size ctx + of_nat (length chunk)
     \<and> (case replies h of Grant junk # rs \<Rightarrow> False | _ \<Rightarrow> True)"

text \<open>
  The invariant of the Write Context: \<open>size\<close> is at most \<open>capacity\<close>, and \<open>data\<close> is not
  \<open>NULL\<close> when \<open>capacity\<close> is above \<open>0\<close>.
\<close>

definition ctx_invariant :: "WriteContext \<Rightarrow> bool" where
  "ctx_invariant ctx \<longleftrightarrow>
     ctx_size ctx \<le> ctx_capacity ctx \<and> (ctx_capacity ctx = 0 \<or> ctx_data ctx \<noteq> 0)"

text \<open>Some chunk of the run is dropped: its append must grow the buffer and is refused.\<close>

fun drops :: "heap \<Rightarrow> WriteContext \<Rightarrow> byte list list \<Rightarrow> bool" where
  "drops h ctx [] = False"
| "drops h ctx (c # cs) =
     (refused h ctx c
      \<or> (case write_callback h ctx c of Inl f \<Rightarrow> False | Inr (h', ctx') \<Rightarrow> drops h' ctx' cs))"

text \<open>Every allocated block has an identifier that was handed out.\<close>

definition heap_ok :: "heap \<Rightarrow> bool" where
  "heap_ok h \<longleftrightarrow> dom (blocks h) \<subseteq> {..nextblock h}"

text \<open>
  The heap \<open>h\<close> of a call that started on \<open>h0\<close> differs from \<open>h0\<close> at most in the block of
  the context, which was handed out during the call.
\<close>

definition framed :: "heap \<Rightarrow> heap \<Rightarrow> WriteContext \<Rightarrow> bool" where
  "framed h0 h ctx \<longleftrightarrow>
     nextblock h0 \<le> nextblock h
     \<and> (if ctx_data ctx = 0 then blocks h = blocks h0
         else nextblock h0 < ctx_data ctx \<and> ctx_data ctx \<le> nextblock h
              \<and> (\<forall>a. a = ctx_data ctx \<or> blocks h a = blocks h0 a))"

text \<open>
  Two runs over the same chunks drop the same ones: at every chunk, the append is refused in
  both runs or in neither.
\<close>

fun same_drops ::
  "heap \<Rightarrow> WriteContext \<Rightarrow> heap \<Rightarrow> WriteContext \<Rightarrow> byte list list \<Rightarrow> bool" where
  "same_drops ha ca hb cb [] = True"
| "same_drops ha ca hb cb (c # cs) =
     ((refused ha ca c \<longleftrightarrow> refused hb cb c)
      \<and> (case write_callback ha ca c of
            Inl f \<Rightarrow> True
          | Inr (ha', ca') \<Rightarrow>
              (case write_callback hb cb c of
                 Inl f \<Rightarrow> True
               | Inr (hb', cb') \<Rightarrow> same_drops ha' ca' hb' cb' cs)))"

text \<open>The bytes a caller reads after a call: \<open>*output_len\<close> bytes at \<open>*output\<close>.\<close>

definition output_buffer :: "returned \<Rightarrow> byte list" where
  "output_buffer r =
     (case blocks (mem r) (output_slot r) of
        None \<Rightarrow> []
      | Some b \<Rightarrow> take (unat (output_len_slot r)) b)"

section \<open>The doubling loop\<close>

lemma double_until_shape:
  "double_until s need = Some c \<Longrightarrow>
     \<exists>k. c = s * 2 ^ k \<and> need \<le> c \<and> (\<forall>j<k. s * 2 ^ j < need)"
proof (induction rule: double_until.raw_induct[rotated 1, consumes 1])
  case (1 f s need c)
  show ?case
  proof (cases "s < need")
    case True
    with 1(2) have "f (s * 2) need = Some c" by simp
    from 1(1)[OF this] obtain k where k: "c = s * 2 * 2 ^ k" "need \<le> c" "\<forall>j<k. s * 2 * 2 ^ j < need"
      by blast
    have "\<forall>j<Suc k. s * 2 ^ j < need"
    proof (intro allI impI)
      fix j assume "j < Suc k"
      show "s * 2 ^ j < need"
      proof (cases j)
        case 0 with True show ?thesis by simp
      next
        case (Suc i)
        with \<open>j < Suc k\<close> k(3) have "s * 2 * 2 ^ i < need" by simp
        with Suc show ?thesis by (simp add: mult.assoc)
      qed
    qed
    moreover have "c = s * 2 ^ Suc k" using k(1) by (simp add: mult.assoc)
    ultimately show ?thesis using k(2) by blast
  next
    case False
    with 1(2) have "c = s" by simp
    with False show ?thesis by (intro exI[of _ 0]) (simp add: not_less)
  qed
qed


lemma double_until_terminates:
  "s \<noteq> 0 \<Longrightarrow> need \<le> 2 ^ 31 \<Longrightarrow> \<exists>c. double_until s need = Some c"
proof (induction "unat need - unat s" arbitrary: s rule: less_induct)
  case less
  show ?case
  proof (cases "s < need")
    case False
    then show ?thesis by (subst double_until.simps) simp
  next
    case True
    have sn: "unat s < unat need" using True by (simp add: word_less_nat_alt)
    have "unat need \<le> 2 ^ 31" using less.prems(2) by (simp add: word_le_nat_alt)
    with sn have "unat s * 2 < 2 ^ 32" by simp
    then have u: "unat (s * 2) = unat s * 2" by (simp add: unat_word_ariths)
    have "unat s \<noteq> 0" using less.prems(1) by (simp add: unat_eq_0)
    with u have "unat need - unat (s * 2) < unat need - unat s" using sn by simp
    moreover have "s * 2 \<noteq> 0" using u \<open>unat s \<noteq> 0\<close> by (metis mult_eq_0_iff unat_eq_0 zero_neq_numeral)
    ultimately obtain c where "double_until (s * 2) need = Some c"
      using less.hyps less.prems(2) by blast
    with True show ?thesis by (subst double_until.simps) simp
  qed
qed

lemma doubling_grows:
  fixes x need :: size_t
  assumes "x \<noteq> 0" and "x < need" and "need \<le> 2 ^ 31"
  shows "x < x * 2 \<and> x * 2 \<noteq> 0"
proof -
  have "unat x < unat need" using assms(2) by (simp add: word_less_nat_alt)
  moreover have "unat need \<le> 2 ^ 31" using assms(3) by (simp add: word_le_nat_alt)
  ultimately have "unat x * 2 < 2 ^ 32" by simp
  then have u: "unat (x * 2) = unat x * 2" by (simp add: unat_word_ariths)
  have "0 < unat x" using assms(1) by (simp add: unat_gt_0)
  with u have "unat x < unat (x * 2)" by simp
  then show ?thesis by (auto simp: word_less_nat_alt)
qed


lemma start_nonzero:
  fixes cap need :: size_t
  assumes "cap < need" and "need \<le> 2 ^ 31"
  shows "(if cap = 0 then 4096 else cap * 2) \<noteq> 0"
proof (cases "cap = 0")
  case True
  then show ?thesis by simp
next
  case False
  with doubling_grows[OF False assms] show ?thesis by simp
qed

lemma unat_pow2:
  assumes "k < 32"
  shows "unat ((2 :: size_t) ^ k) = 2 ^ k"
proof -
  have "(2 :: nat) ^ k < 2 ^ 32" using assms by (intro power_strict_increasing) simp_all
  moreover have "(2 :: size_t) ^ k = of_nat (2 ^ k)" by simp
  ultimately show ?thesis by (simp only: unat_of_nat) simp
qed

lemma pow2_zero:
  assumes "32 \<le> m"
  shows "(2 :: size_t) ^ m = 0"
proof -
  from assms have "m = 32 + (m - 32)" by simp
  then have "(2 :: size_t) ^ m = 2 ^ 32 * 2 ^ (m - 32)" by (metis power_add)
  moreover have "(2 :: size_t) ^ 32 = 0" by simp
  ultimately show ?thesis by (simp only: mult_zero_left)
qed



section \<open>The library operations\<close>

lemma realloc_refused:
  assumes "realloc h p n = Inr (h1, 0)"
  shows "blocks h1 = blocks h \<and> nextblock h1 = nextblock h \<and> replies h1 = tl (replies h)
         \<and> (\<forall>junk rs. replies h \<noteq> Grant junk # rs)"
  using assms
  by (auto simp: realloc_def Let_def split: if_splits list.splits reply.splits)

lemma realloc_granted:
  assumes "realloc h p n = Inr (h1, q)" and "q \<noteq> 0"
  shows "\<exists>junk rs. replies h = Grant junk # rs \<and> replies h1 = rs \<and> q = Suc (nextblock h)
           \<and> nextblock h1 = q
           \<and> blocks h1 = (if p = 0 then blocks h else (blocks h)(p := None))
                (q \<mapsto> take (unat n) (if p = 0 then [] else the (blocks h p))
                         @ map junk [length (if p = 0 then [] else the (blocks h p)) ..< unat n])"
  using assms
  by (auto simp: realloc_def Let_def split: if_splits list.splits reply.splits option.splits)

lemma realloc_returns:
  assumes "p = 0 \<or> blocks h p \<noteq> None"
  shows "\<exists>h1 q. realloc h p n = Inr (h1, q)"
  using assms
  by (auto simp: realloc_def Let_def split: if_splits list.splits reply.splits)

lemma memcpy_Inr:
  assumes "memcpy h p off src = Inr h'"
  shows "(src = [] \<and> h' = h) \<or>
         (\<exists>b. src \<noteq> [] \<and> p \<noteq> 0 \<and> blocks h p = Some b \<and> off + length src \<le> length b \<and>
              h' = h\<lparr>blocks := (blocks h)(p \<mapsto> take off b @ src @ drop (off + length src) b)\<rparr>)"
  using assms
  by (auto simp: memcpy_def split: if_splits option.splits)

lemma copy_and_advance_Inr:
  assumes "copy_and_advance h ctx chunk = Inr (h', ctx')"
  shows "ctx' = ctx\<lparr>ctx_size := ctx_size ctx + of_nat (length chunk)\<rparr>
         \<and> memcpy h (ctx_data ctx) (unat (ctx_size ctx)) chunk = Inr h'"
  using assms unfolding copy_and_advance_def
  by (auto split: sum.splits)

lemma copy_keeps_null:
  assumes "copy_and_advance h ctx chunk = Inr (h', ctx')"
  shows "blocks h' 0 = blocks h 0"
  using memcpy_Inr[of h "ctx_data ctx" "unat (ctx_size ctx)" chunk h']
    copy_and_advance_Inr[OF assms]
  by auto

lemma write_callback_cases:
  assumes "write_callback h ctx chunk = Inr (h', ctx')"
  shows "length chunk < 2 ^ 31 \<and>
    ((\<not> ctx_capacity ctx < ctx_size ctx + of_nat (length chunk)
        \<and> copy_and_advance h ctx chunk = Inr (h', ctx'))
     \<or> (\<exists>nc. ctx_capacity ctx < ctx_size ctx + of_nat (length chunk)
          \<and> double_until (if ctx_capacity ctx = 0 then 4096 else ctx_capacity ctx * 2)
               (ctx_size ctx + of_nat (length chunk)) = Some nc
          \<and> ((realloc h (ctx_data ctx) nc = Inr (h', 0) \<and> ctx' = ctx)
              \<or> (\<exists>h1 q. realloc h (ctx_data ctx) nc = Inr (h1, q) \<and> q \<noteq> 0
                   \<and> copy_and_advance h1 (ctx\<lparr>ctx_data := q, ctx_capacity := nc\<rparr>) chunk
                       = Inr (h', ctx')))))"
  using assms unfolding write_callback_def
  by (auto split: if_splits option.splits sum.splits simp: not_le)

section \<open>The context and its block\<close>

lemma ctx_ok_empty: "ctx_ok h empty_ctx"
  by (simp add: ctx_ok_def empty_ctx_def)

lemma stored_empty: "stored h empty_ctx = []"
  by (simp add: stored_def empty_ctx_def)

lemma length_stored: "ctx_ok h ctx \<Longrightarrow> length (stored h ctx) = unat (ctx_size ctx)"
  by (auto simp: ctx_ok_def stored_def word_le_nat_alt split: if_splits option.splits)

lemma unat_of_nat_chunk:
  "length (chunk :: byte list) < 2 ^ 31 \<Longrightarrow> unat (of_nat (length chunk) :: size_t) = length chunk"
  by (simp add: unat_of_nat)

text \<open>An append that copies: the block is live and large enough, or the chunk is empty.\<close>

lemma copy_step:
  assumes ok: "ctx_ok h ctx" and n: "length chunk < 2 ^ 31"
    and r: "copy_and_advance h ctx chunk = Inr (h', ctx')"
  shows "ctx_ok h' ctx' \<and> stored h' ctx' = stored h ctx @ chunk
         \<and> unat (ctx_size ctx') = unat (ctx_size ctx) + length chunk
         \<and> ctx_data ctx' = ctx_data ctx \<and> ctx_capacity ctx' = ctx_capacity ctx
         \<and> replies h' = replies h \<and> nextblock h' = nextblock h
         \<and> (\<forall>a. a \<noteq> ctx_data ctx \<longrightarrow> blocks h' a = blocks h a)"
proof -
  from copy_and_advance_Inr[OF r]
  have c': "ctx' = ctx\<lparr>ctx_size := ctx_size ctx + of_nat (length chunk)\<rparr>"
    and m: "memcpy h (ctx_data ctx) (unat (ctx_size ctx)) chunk = Inr h'" by auto
  from memcpy_Inr[OF m] show ?thesis
  proof (elim disjE conjE exE)
    assume "chunk = []" "h' = h"
    with c' ok show ?thesis by (simp add: ctx_ok_def stored_def)
  next
    fix b
    assume ne: "chunk \<noteq> []" and d: "ctx_data ctx \<noteq> 0" and b: "blocks h (ctx_data ctx) = Some b"
      and fit: "unat (ctx_size ctx) + length chunk \<le> length b"
      and h': "h' = h\<lparr>blocks := (blocks h)(ctx_data ctx \<mapsto>
                 take (unat (ctx_size ctx)) b @ chunk
                   @ drop (unat (ctx_size ctx) + length chunk) b)\<rparr>"
    from ok b d have lb: "length b = unat (ctx_capacity ctx)"
      by (simp add: ctx_ok_def)
    have "unat (ctx_capacity ctx) < 2 ^ 32" using unsigned_less[of "ctx_capacity ctx"] by simp
    with fit lb have lt: "unat (ctx_size ctx) + length chunk < 2 ^ 32" by simp
    have u: "unat (ctx_size ctx + of_nat (length chunk)) = unat (ctx_size ctx) + length chunk"
      using lt n by (simp add: unat_word_ariths unat_of_nat)
    have le: "ctx_size ctx + of_nat (length chunk) \<le> ctx_capacity ctx"
      using u fit lb by (simp add: word_le_nat_alt)
    show ?thesis using c' h' d b lb fit u le
      by (simp add: ctx_ok_def stored_def)
  qed
qed

lemma copy_returns:
  assumes ok: "ctx_ok h ctx" and fit: "unat (ctx_size ctx) + length chunk \<le> unat (ctx_capacity ctx)"
  shows "\<exists>h' ctx'. copy_and_advance h ctx chunk = Inr (h', ctx')"
proof (cases "chunk = []")
  case True
  then show ?thesis by (simp add: copy_and_advance_def memcpy_def)
next
  case False
  with fit have "ctx_capacity ctx \<noteq> 0" by (auto simp: unat_eq_0)
  with ok have d: "ctx_data ctx \<noteq> 0" by (auto simp: ctx_ok_def split: if_splits)
  with ok obtain b where "blocks h (ctx_data ctx) = Some b" "length b = unat (ctx_capacity ctx)"
    by (auto simp: ctx_ok_def split: option.splits)
  with d fit False show ?thesis by (simp add: copy_and_advance_def memcpy_def)
qed

lemma grow_step:
  assumes ok: "ctx_ok h ctx"
    and r: "realloc h (ctx_data ctx) nc = Inr (h1, q)" and q: "q \<noteq> 0"
    and big: "ctx_capacity ctx \<le> nc"
  shows "ctx_ok h1 (ctx\<lparr>ctx_data := q, ctx_capacity := nc\<rparr>)
         \<and> stored h1 (ctx\<lparr>ctx_data := q, ctx_capacity := nc\<rparr>) = stored h ctx
         \<and> q = Suc (nextblock h) \<and> nextblock h1 = q
         \<and> (\<exists>junk. replies h = Grant junk # replies h1)
         \<and> (\<forall>a. a \<noteq> q \<and> a \<noteq> ctx_data ctx \<longrightarrow> blocks h1 a = blocks h a)
         \<and> (ctx_data ctx \<noteq> 0 \<longrightarrow> blocks h1 (ctx_data ctx) = None \<or> ctx_data ctx = q)
         \<and> blocks h1 0 = blocks h 0"
proof -
  let ?p = "ctx_data ctx"
  let ?old = "if ?p = 0 then [] else the (blocks h ?p)"
  from realloc_granted[OF r q] obtain junk rs where
    rep: "replies h = Grant junk # rs" "replies h1 = rs"
    and qq: "q = Suc (nextblock h)" "nextblock h1 = q"
    and bl: "blocks h1 = (if ?p = 0 then blocks h else (blocks h)(?p := None))
               (q \<mapsto> take (unat nc) ?old @ map junk [length ?old ..< unat nc])"
    by blast
  have sz: "ctx_size ctx \<le> ctx_capacity ctx"
    using ok by (auto simp: ctx_ok_def split: if_splits option.splits)
  have lo: "length ?old = unat (ctx_capacity ctx)"
    using ok by (auto simp: ctx_ok_def split: if_splits option.splits)
  have st: "stored h ctx = take (unat (ctx_size ctx)) ?old"
    using ok by (auto simp: ctx_ok_def stored_def split: if_splits option.splits)
  have le1: "unat (ctx_size ctx) \<le> length ?old" using sz lo by (simp add: word_le_nat_alt)
  have le2: "length ?old \<le> unat nc" using big lo by (simp add: word_le_nat_alt)
  have "ctx_size ctx \<le> nc" using sz big by simp
  moreover have "length (take (unat nc) ?old @ map junk [length ?old ..< unat nc]) = unat nc"
    using le2 by simp
  moreover have "take (unat (ctx_size ctx)) (take (unat nc) ?old @ map junk [length ?old ..< unat nc])
      = take (unat (ctx_size ctx)) ?old"
    using le1 le2 by simp
  ultimately show ?thesis
    using q rep qq bl st by (auto simp: ctx_ok_def stored_def)
qed

lemma write_callback_step:
  assumes ok: "ctx_ok h ctx" and r: "write_callback h ctx chunk = Inr (h', ctx')"
  shows "ctx_ok h' ctx'
    \<and> (if refused h ctx chunk
        then ctx' = ctx \<and> stored h' ctx' = stored h ctx \<and> blocks h' = blocks h
        else stored h' ctx' = stored h ctx @ chunk
             \<and> unat (ctx_size ctx') = unat (ctx_size ctx) + length chunk)"
proof -
  let ?need = "ctx_size ctx + of_nat (length chunk)"
  from write_callback_cases[OF r] have n: "length chunk < 2 ^ 31" by simp
  from write_callback_cases[OF r] consider
    (copy) "\<not> ctx_capacity ctx < ?need" "copy_and_advance h ctx chunk = Inr (h', ctx')"
  | (drop) nc where "ctx_capacity ctx < ?need" "realloc h (ctx_data ctx) nc = Inr (h', 0)" "ctx' = ctx"
  | (grow) nc h1 q where "ctx_capacity ctx < ?need"
      "double_until (if ctx_capacity ctx = 0 then 4096 else ctx_capacity ctx * 2) ?need = Some nc"
      "realloc h (ctx_data ctx) nc = Inr (h1, q)" "q \<noteq> 0"
      "copy_and_advance h1 (ctx\<lparr>ctx_data := q, ctx_capacity := nc\<rparr>) chunk = Inr (h', ctx')"
    by blast
  then show ?thesis
  proof cases
    case copy
    from copy(1) have "\<not> refused h ctx chunk" by (simp add: refused_def)
    with copy_step[OF ok n copy(2)] show ?thesis by simp
  next
    case drop
    from realloc_refused[OF drop(2)] have b: "blocks h' = blocks h"
      and g: "\<forall>junk rs. replies h \<noteq> Grant junk # rs" by auto
    from g drop(1) have "refused h ctx chunk"
      by (auto simp: refused_def split: list.splits reply.splits)
    moreover have "ctx_ok h' ctx" using ok b by (simp add: ctx_ok_def)
    moreover have "stored h' ctx = stored h ctx" using b by (simp add: stored_def)
    ultimately show ?thesis using drop(3) b by simp
  next
    case grow
    from double_until_shape[OF grow(2)] have "?need \<le> nc" by blast
    with grow(1) have big: "ctx_capacity ctx \<le> nc" by simp
    from grow_step[OF ok grow(3) grow(4) big]
    have ok1: "ctx_ok h1 (ctx\<lparr>ctx_data := q, ctx_capacity := nc\<rparr>)"
      and st1: "stored h1 (ctx\<lparr>ctx_data := q, ctx_capacity := nc\<rparr>) = stored h ctx"
      and g: "\<exists>junk. replies h = Grant junk # replies h1" by auto
    from g have "\<not> refused h ctx chunk" by (auto simp: refused_def)
    with copy_step[OF ok1 n grow(5)] st1 show ?thesis by simp
  qed
qed

lemma write_callback_grown:
  assumes ok: "ctx_ok h ctx" and r: "write_callback h ctx chunk = Inr (h', ctx')"
    and need: "ctx_capacity ctx < ctx_size ctx + of_nat (length chunk)"
    and grant: "replies h = Grant junk # rs"
  shows "double_until (if ctx_capacity ctx = 0 then 4096 else ctx_capacity ctx * 2)
             (ctx_size ctx + of_nat (length chunk)) = Some (ctx_capacity ctx')
         \<and> ctx_data ctx' = Suc (nextblock h) \<and> nextblock h' = Suc (nextblock h)
         \<and> replies h' = rs
         \<and> (\<forall>a. a \<noteq> ctx_data ctx' \<and> a \<noteq> ctx_data ctx \<longrightarrow> blocks h' a = blocks h a)
         \<and> (ctx_data ctx \<noteq> 0 \<longrightarrow> blocks h' (ctx_data ctx) = None \<or> ctx_data ctx = ctx_data ctx')"
proof -
  let ?need = "ctx_size ctx + of_nat (length chunk)"
  from write_callback_cases[OF r] have n: "length chunk < 2 ^ 31" by simp
  from write_callback_cases[OF r] need consider
    (drop) nc where "realloc h (ctx_data ctx) nc = Inr (h', 0)"
  | (grow) nc h1 q where
      "double_until (if ctx_capacity ctx = 0 then 4096 else ctx_capacity ctx * 2) ?need = Some nc"
      "realloc h (ctx_data ctx) nc = Inr (h1, q)" "q \<noteq> 0"
      "copy_and_advance h1 (ctx\<lparr>ctx_data := q, ctx_capacity := nc\<rparr>) chunk = Inr (h', ctx')"
    by blast
  then show ?thesis
  proof cases
    case drop
    from realloc_refused[OF drop] grant show ?thesis by simp
  next
    case grow
    from double_until_shape[OF grow(1)] need have big: "ctx_capacity ctx \<le> nc" by auto
    note g = grow_step[OF ok grow(2) grow(3) big]
    from g have ok1: "ctx_ok h1 (ctx\<lparr>ctx_data := q, ctx_capacity := nc\<rparr>)" by blast
    note c = copy_step[OF ok1 n grow(4)]
    from c have d: "ctx_data ctx' = q" and cap: "ctx_capacity ctx' = nc"
      and nb: "nextblock h' = nextblock h1" and rp: "replies h' = replies h1"
      and fr: "\<forall>a. a \<noteq> q \<longrightarrow> blocks h' a = blocks h1 a" by simp_all
    from g grant have "replies h1 = rs" by auto
    with g grow(1) d cap nb rp fr show ?thesis by auto
  qed
qed

lemma write_callback_capacity:
  assumes ok: "ctx_ok h ctx" and r: "write_callback h ctx chunk = Inr (h', ctx')"
    and nr: "\<not> refused h ctx chunk"
  shows "if ctx_capacity ctx < ctx_size ctx + of_nat (length chunk)
         then double_until (if ctx_capacity ctx = 0 then 4096 else ctx_capacity ctx * 2)
                (ctx_size ctx + of_nat (length chunk)) = Some (ctx_capacity ctx')
         else ctx_capacity ctx' = ctx_capacity ctx"
proof (cases "ctx_capacity ctx < ctx_size ctx + of_nat (length chunk)")
  case True
  with nr obtain junk rs where "replies h = Grant junk # rs"
    by (auto simp: refused_def split: list.splits reply.splits)
  from write_callback_grown[OF ok r True this] True show ?thesis by simp
next
  case False
  with write_callback_cases[OF r] have "copy_and_advance h ctx chunk = Inr (h', ctx')" by blast
  from copy_and_advance_Inr[OF this] False show ?thesis by simp
qed

lemma write_callback_returns:
  assumes ok: "ctx_ok h ctx" and fits: "unat (ctx_size ctx) + length chunk < 2 ^ 31"
  shows "\<exists>h' ctx'. write_callback h ctx chunk = Inr (h', ctx')"
proof -
  let ?need = "ctx_size ctx + of_nat (length chunk)"
  let ?start = "if ctx_capacity ctx = 0 then 4096 else ctx_capacity ctx * 2"
  from fits have n: "length chunk < 2 ^ 31" by simp
  then have un: "unat (of_nat (length chunk) :: size_t) = length chunk" by (rule unat_of_nat_chunk)
  have u: "unat ?need = unat (ctx_size ctx) + length chunk"
    using fits un by (simp add: unat_word_ariths)
  show ?thesis
  proof (cases "ctx_capacity ctx < ?need")
    case False
    then have "unat ?need \<le> unat (ctx_capacity ctx)" by (simp add: word_le_nat_alt not_less)
    with u copy_returns[OF ok, of chunk] False n show ?thesis
      by (simp add: write_callback_def)
  next
    case True
    have le: "?need \<le> 2 ^ 31" using u fits by (simp add: word_le_nat_alt)
    from start_nonzero[OF True le] double_until_terminates[OF _ le]
    obtain nc where nc: "double_until ?start ?need = Some nc" by blast
    from double_until_shape[OF nc] have ge: "?need \<le> nc" by blast
    with True have big: "ctx_capacity ctx \<le> nc" by simp
    from ok have "ctx_data ctx = 0 \<or> blocks h (ctx_data ctx) \<noteq> None"
      by (auto simp: ctx_ok_def split: if_splits option.splits)
    from realloc_returns[OF this] obtain h1 q where
      r: "realloc h (ctx_data ctx) nc = Inr (h1, q)" by blast
    show ?thesis
    proof (cases "q = 0")
      case True
      with r nc n \<open>ctx_capacity ctx < ?need\<close> show ?thesis by (simp add: write_callback_def)
    next
      case False
      from grow_step[OF ok r False big]
      have ok1: "ctx_ok h1 (ctx\<lparr>ctx_data := q, ctx_capacity := nc\<rparr>)" by blast
      have "unat (ctx_size ctx) + length chunk \<le> unat nc" using ge u by (simp add: word_le_nat_alt)
      with copy_returns[OF ok1, of chunk] obtain h' ctx' where
        "copy_and_advance h1 (ctx\<lparr>ctx_data := q, ctx_capacity := nc\<rparr>) chunk = Inr (h', ctx')"
        by auto
      with r nc n False \<open>ctx_capacity ctx < ?need\<close> show ?thesis by (simp add: write_callback_def)
    qed
  qed
qed

lemma write_callback_invariant_step:
  assumes inv: "ctx_invariant ctx" and r: "write_callback h ctx chunk = Inr (h', ctx')"
  shows "ctx_invariant ctx'"
proof -
  let ?need = "ctx_size ctx + of_nat (length chunk)"
  from write_callback_cases[OF r] consider
    (copy) "\<not> ctx_capacity ctx < ?need" "copy_and_advance h ctx chunk = Inr (h', ctx')"
  | (drop) "ctx' = ctx"
  | (grow) nc h1 q where
      "double_until (if ctx_capacity ctx = 0 then 4096 else ctx_capacity ctx * 2) ?need = Some nc"
      "q \<noteq> 0"
      "copy_and_advance h1 (ctx\<lparr>ctx_data := q, ctx_capacity := nc\<rparr>) chunk = Inr (h', ctx')"
    by blast
  then show ?thesis
  proof cases
    case copy
    from copy_and_advance_Inr[OF copy(2)] copy(1) inv show ?thesis
      by (simp add: ctx_invariant_def not_less)
  next
    case drop
    with inv show ?thesis by simp
  next
    case grow
    from double_until_shape[OF grow(1)] have "?need \<le> nc" by blast
    with copy_and_advance_Inr[OF grow(3)] grow(2) show ?thesis
      by (simp add: ctx_invariant_def)
  qed
qed

text \<open>A first append, evaluated: three bytes into a granted block of \<open>4096\<close>.\<close>

lemma first_append_evaluates:
  "write_callback \<lparr>blocks = Map.empty, nextblock = 0, replies = [Grant (\<lambda>i. 0)]\<rparr>
       empty_ctx [1, 2, 3]
   = Inr (\<lparr>blocks = [1 \<mapsto> [1, 2, 3] @ replicate 4093 0], nextblock = 1, replies = []\<rparr>,
          \<lparr>ctx_data = 1, ctx_size = 3, ctx_capacity = 4096\<rparr>)"
  by (simp add: write_callback_def empty_ctx_def double_until.simps realloc_def
      copy_and_advance_def memcpy_def Let_def map_replicate_const)

section \<open>Runs of the append operation\<close>

lemma run_ok:
  assumes "ctx_ok h ctx" and "sink_all write_callback h ctx chunks = Inr (h', ctx')"
  shows "ctx_ok h' ctx'"
  using assms
proof (induction chunks arbitrary: h ctx)
  case Nil
  then show ?case by simp
next
  case (Cons c cs)
  from Cons.prems(2) obtain h1 ctx1 where
    s: "write_callback h ctx c = Inr (h1, ctx1)"
    and t: "sink_all write_callback h1 ctx1 cs = Inr (h', ctx')"
    by (auto split: sum.splits)
  from write_callback_step[OF Cons.prems(1) s] have "ctx_ok h1 ctx1" by blast
  from Cons.IH[OF this t] show ?case .
qed

lemma run_returns:
  assumes "ctx_ok h ctx" and "unat (ctx_size ctx) + sum_list (map length chunks) < 2 ^ 31"
  shows "\<exists>h' ctx'. sink_all write_callback h ctx chunks = Inr (h', ctx')"
  using assms
proof (induction chunks arbitrary: h ctx)
  case Nil
  then show ?case by simp
next
  case (Cons c cs)
  from Cons.prems(2) have "unat (ctx_size ctx) + length c < 2 ^ 31" by simp
  from write_callback_returns[OF Cons.prems(1) this] obtain h1 ctx1 where
    s: "write_callback h ctx c = Inr (h1, ctx1)" by blast
  note st = write_callback_step[OF Cons.prems(1) s]
  from st have ok1: "ctx_ok h1 ctx1" by blast
  from st have "unat (ctx_size ctx1) \<le> unat (ctx_size ctx) + length c"
    by (auto split: if_splits)
  with Cons.prems(2) have "unat (ctx_size ctx1) + sum_list (map length cs) < 2 ^ 31" by simp
  from Cons.IH[OF ok1 this] s show ?case by simp
qed

lemma sum_length_take:
  "sum_list (map length (take k xs)) \<le> sum_list (map length xs)"
proof -
  have "sum_list (map length xs)
      = sum_list (map length (take k xs)) + sum_list (map length (drop k xs))"
    by (metis append_take_drop_id map_append sum_list_append)
  then show ?thesis by simp
qed

lemma drops_prefix:
  "drops h ctx (take k chunks) \<Longrightarrow> drops h ctx chunks"
proof (induction chunks arbitrary: k h ctx)
  case Nil
  then show ?case by simp
next
  case (Cons c cs)
  show ?case
  proof (cases k)
    case 0
    with Cons.prems show ?thesis by simp
  next
    case (Suc j)
    with Cons.prems Cons.IH[of _ _ j] show ?thesis
      by (auto split: sum.splits)
  qed
qed

lemma run_kept:
  assumes "ctx_ok h ctx" and "\<not> drops h ctx chunks"
    and "sink_all write_callback h ctx chunks = Inr (h', ctx')"
  shows "stored h' ctx' = stored h ctx @ concat chunks
         \<and> unat (ctx_size ctx') = unat (ctx_size ctx) + sum_list (map length chunks)"
  using assms
proof (induction chunks arbitrary: h ctx)
  case Nil
  then show ?case by simp
next
  case (Cons c cs)
  from Cons.prems(3) obtain h1 ctx1 where
    s: "write_callback h ctx c = Inr (h1, ctx1)"
    and t: "sink_all write_callback h1 ctx1 cs = Inr (h', ctx')"
    by (auto split: sum.splits)
  from Cons.prems(2) s have nr: "\<not> refused h ctx c" and nd: "\<not> drops h1 ctx1 cs" by simp_all
  note st = write_callback_step[OF Cons.prems(1) s]
  from st have ok1: "ctx_ok h1 ctx1" by blast
  from st nr have a: "stored h1 ctx1 = stored h ctx @ c"
    "unat (ctx_size ctx1) = unat (ctx_size ctx) + length c" by simp_all
  from Cons.IH[OF ok1 nd t] a show ?case by simp
qed

text \<open>The capacities a run from the empty context reaches: \<open>0\<close>, or \<open>4096\<close> doubled.\<close>

lemma capacity_step:
  assumes r: "write_callback h ctx chunk = Inr (h', ctx')"
    and p: "ctx_capacity ctx = 0 \<or> (\<exists>k. 12 \<le> k \<and> k < 32 \<and> ctx_capacity ctx = 2 ^ k)"
  shows "(ctx_capacity ctx' = 0 \<or> (\<exists>k. 12 \<le> k \<and> k < 32 \<and> ctx_capacity ctx' = 2 ^ k))
         \<and> (ctx_capacity ctx' = ctx_capacity ctx
             \<or> 2 * unat (ctx_capacity ctx) \<le> unat (ctx_capacity ctx')
                \<and> 4096 \<le> unat (ctx_capacity ctx'))"
proof -
  let ?need = "ctx_size ctx + of_nat (length chunk)"
  let ?start = "if ctx_capacity ctx = 0 then 4096 else ctx_capacity ctx * 2"
  from write_callback_cases[OF r] consider
    (copy) "copy_and_advance h ctx chunk = Inr (h', ctx')"
  | (drop) "ctx' = ctx"
  | (grow) nc h1 q where "ctx_capacity ctx < ?need" "double_until ?start ?need = Some nc"
      "copy_and_advance h1 (ctx\<lparr>ctx_data := q, ctx_capacity := nc\<rparr>) chunk = Inr (h', ctx')"
    by blast
  then show ?thesis
  proof cases
    case copy
    from copy_and_advance_Inr[OF copy] p show ?thesis by simp
  next
    case drop
    with p show ?thesis by simp
  next
    case grow
    from copy_and_advance_Inr[OF grow(3)] have cap': "ctx_capacity ctx' = nc" by simp
    from double_until_shape[OF grow(2)] obtain j where
      j: "nc = ?start * 2 ^ j" "?need \<le> nc" by blast
    from grow(1) j(2) have "ctx_capacity ctx < nc" by simp
    then have nz: "nc \<noteq> 0" and lt: "unat (ctx_capacity ctx) < unat nc"
      by (auto simp: word_less_nat_alt)
    obtain m where m: "nc = 2 ^ m" "12 \<le> m"
      "ctx_capacity ctx = 0 \<or> (\<exists>k. ctx_capacity ctx = 2 ^ k \<and> k < 32 \<and> Suc k \<le> m)"
    proof (cases "ctx_capacity ctx = 0")
      case True
      have "(4096 :: size_t) * 2 ^ j = 2 ^ (12 + j)" by (simp add: power_add)
      with True j(1) have nc: "nc = 2 ^ (12 + j)" by simp
      have "12 \<le> 12 + j" by simp
      with True show ?thesis using that[OF nc] by blast
    next
      case False
      with p obtain k where k: "12 \<le> k" "k < 32" "ctx_capacity ctx = 2 ^ k" by blast
      with False j(1) have nc: "nc = 2 ^ (Suc k + j)" by (simp add: power_add ac_simps)
      have "12 \<le> Suc k + j" using k(1) by simp
      moreover have "\<exists>k'. ctx_capacity ctx = 2 ^ k' \<and> k' < 32 \<and> Suc k' \<le> Suc k + j"
        using k by (intro exI[of _ k]) simp
      ultimately show ?thesis using that[OF nc] by blast
    qed
    from m(1) nz have m32: "m < 32" using pow2_zero[of m] by (cases "m < 32") auto
    then have um: "unat nc = 2 ^ m" using m(1) by (simp add: unat_pow2)
    have "(2 :: nat) ^ 12 \<le> 2 ^ m" using m(2) by (intro power_increasing) simp_all
    then have f: "4096 \<le> unat nc" using um by simp
    have d: "2 * unat (ctx_capacity ctx) \<le> unat nc"
    proof (cases "ctx_capacity ctx = 0")
      case True
      then show ?thesis by simp
    next
      case False
      with m(3) obtain k where k: "ctx_capacity ctx = 2 ^ k" "k < 32" "Suc k \<le> m" by blast
      have "(2 :: nat) ^ Suc k \<le> 2 ^ m" using k(3) by (intro power_increasing) simp_all
      with k um show ?thesis by (simp add: unat_pow2)
    qed
    from m m32 cap' f d show ?thesis by auto
  qed
qed

lemma capacity_run:
  assumes "sink_all write_callback h ctx chunks = Inr (h', ctx')"
    and "ctx_capacity ctx = 0 \<or> (\<exists>k. 12 \<le> k \<and> k < 32 \<and> ctx_capacity ctx = 2 ^ k)"
  shows "(ctx_capacity ctx' = 0 \<or> (\<exists>k. 12 \<le> k \<and> k < 32 \<and> ctx_capacity ctx' = 2 ^ k))
         \<and> (ctx_capacity ctx' = ctx_capacity ctx
             \<or> 2 * unat (ctx_capacity ctx) \<le> unat (ctx_capacity ctx')
                \<and> 4096 \<le> unat (ctx_capacity ctx'))"
  using assms
proof (induction chunks arbitrary: h ctx)
  case Nil
  then show ?case by simp
next
  case (Cons c cs)
  from Cons.prems(1) obtain h1 ctx1 where
    s: "write_callback h ctx c = Inr (h1, ctx1)" and t: "sink_all write_callback h1 ctx1 cs = Inr (h', ctx')"
    by (auto split: sum.splits)
  note a = capacity_step[OF s Cons.prems(2)]
  from a have p1: "ctx_capacity ctx1 = 0 \<or> (\<exists>k. 12 \<le> k \<and> k < 32 \<and> ctx_capacity ctx1 = 2 ^ k)"
    by blast
  note b = Cons.IH[OF t p1]
  from a b show ?case by (elim conjE disjE) auto
qed

section \<open>The heap around a call\<close>

lemma framed_start: "framed h h empty_ctx"
  by (simp add: framed_def empty_ctx_def)

lemma framed_step:
  assumes hok: "heap_ok h0" and ok: "ctx_ok h ctx" and fr: "framed h0 h ctx"
    and r: "write_callback h ctx chunk = Inr (h', ctx')"
  shows "framed h0 h' ctx'"
proof -
  let ?need = "ctx_size ctx + of_nat (length chunk)"
  from write_callback_cases[OF r] have n: "length chunk < 2 ^ 31" by simp
  from write_callback_cases[OF r] consider
    (copy) "copy_and_advance h ctx chunk = Inr (h', ctx')"
  | (drop) nc where "realloc h (ctx_data ctx) nc = Inr (h', 0)" "ctx' = ctx"
  | (grow) nc h1 q where "ctx_capacity ctx < ?need"
      "double_until (if ctx_capacity ctx = 0 then 4096 else ctx_capacity ctx * 2) ?need = Some nc"
      "realloc h (ctx_data ctx) nc = Inr (h1, q)" "q \<noteq> 0"
      "copy_and_advance h1 (ctx\<lparr>ctx_data := q, ctx_capacity := nc\<rparr>) chunk = Inr (h', ctx')"
    by blast
  then show ?thesis
  proof cases
    case copy
    note c = copy_step[OF ok n copy]
    from c have eq: "\<forall>a. a \<noteq> ctx_data ctx \<longrightarrow> blocks h' a = blocks h a"
      and d: "ctx_data ctx' = ctx_data ctx" and nb: "nextblock h' = nextblock h" by simp_all
    show ?thesis
    proof (cases "ctx_data ctx = 0")
      case True
      have "blocks h' a = blocks h a" for a
        using eq copy_keeps_null[OF copy] True by (cases "a = 0") auto
      then have "blocks h' = blocks h" by (rule ext)
      with fr True d nb show ?thesis by (simp add: framed_def)
    next
      case False
      with fr have "\<forall>a. a = ctx_data ctx \<or> blocks h a = blocks h0 a" by (simp add: framed_def)
      with eq have "\<forall>a. a = ctx_data ctx \<or> blocks h' a = blocks h0 a" by metis
      with fr False d nb show ?thesis by (simp add: framed_def)
    qed
  next
    case drop
    from realloc_refused[OF drop(1)] fr drop(2) show ?thesis by (simp add: framed_def)
  next
    case grow
    from double_until_shape[OF grow(2)] grow(1) have big: "ctx_capacity ctx \<le> nc" by auto
    note g = grow_step[OF ok grow(3) grow(4) big]
    from g have ok1: "ctx_ok h1 (ctx\<lparr>ctx_data := q, ctx_capacity := nc\<rparr>)"
      and q: "q = Suc (nextblock h)" and nb1: "nextblock h1 = q"
      and el: "\<forall>a. a \<noteq> q \<and> a \<noteq> ctx_data ctx \<longrightarrow> blocks h1 a = blocks h a"
      and old: "ctx_data ctx \<noteq> 0 \<longrightarrow> blocks h1 (ctx_data ctx) = None \<or> ctx_data ctx = q"
      and nul: "blocks h1 0 = blocks h 0" by blast+
    note c = copy_step[OF ok1 n grow(5)]
    from c have eq: "\<forall>a. a \<noteq> q \<longrightarrow> blocks h' a = blocks h1 a"
      and d: "ctx_data ctx' = q" and nb: "nextblock h' = nextblock h1" by simp_all
    from fr have le: "nextblock h0 \<le> nextblock h" by (simp add: framed_def)
    have "blocks h' a = blocks h0 a" if a: "a \<noteq> q" for a
    proof (cases "ctx_data ctx = 0")
      case True
      with fr have "blocks h = blocks h0" by (simp add: framed_def)
      moreover have "blocks h1 a = blocks h a"
        using el nul a True by (cases "a = 0") auto
      ultimately show ?thesis using eq a by simp
    next
      case False
      with fr have lo: "nextblock h0 < ctx_data ctx" and hi: "ctx_data ctx \<le> nextblock h"
        and same: "\<forall>b. b = ctx_data ctx \<or> blocks h b = blocks h0 b" by (simp_all add: framed_def)
      show ?thesis
      proof (cases "a = ctx_data ctx")
        case True
        from hi q have "ctx_data ctx \<noteq> q" by simp
        with old False have "blocks h1 (ctx_data ctx) = None" by simp
        moreover have "blocks h0 (ctx_data ctx) = None"
          using hok lo by (auto simp: heap_ok_def)
        ultimately show ?thesis using eq a True by simp
      next
        case False
        with el a same eq show ?thesis by auto
      qed
    qed
    with d q nb nb1 le show ?thesis by (auto simp: framed_def)
  qed
qed

lemma framed_run:
  assumes "heap_ok h0" and "ctx_ok h ctx" and "framed h0 h ctx"
    and "sink_all write_callback h ctx chunks = Inr (h', ctx')"
  shows "framed h0 h' ctx'"
  using assms(2-)
proof (induction chunks arbitrary: h ctx)
  case Nil
  then show ?case by simp
next
  case (Cons c cs)
  from Cons.prems(3) obtain h1 ctx1 where
    s: "write_callback h ctx c = Inr (h1, ctx1)"
    and t: "sink_all write_callback h1 ctx1 cs = Inr (h', ctx')"
    by (auto split: sum.splits)
  from write_callback_step[OF Cons.prems(1) s] have ok1: "ctx_ok h1 ctx1" by blast
  from framed_step[OF assms(1) Cons.prems(1,2) s] have "framed h0 h1 ctx1" .
  from Cons.IH[OF ok1 this t] show ?case .
qed

section \<open>Two runs side by side\<close>

lemma lockstep_step:
  assumes oka: "ctx_ok ha ca" and okb: "ctx_ok hb cb"
    and eq: "refused ha ca chunk \<longleftrightarrow> refused hb cb chunk"
    and sz: "ctx_size ca = ctx_size cb" and cp: "ctx_capacity ca = ctx_capacity cb"
    and st: "stored ha ca = stored hb cb"
    and ra: "write_callback ha ca chunk = Inr (ha', ca')"
    and rb: "write_callback hb cb chunk = Inr (hb', cb')"
  shows "ctx_size ca' = ctx_size cb'
         \<and> ctx_capacity ca' = ctx_capacity cb' \<and> stored ha' ca' = stored hb' cb'"
proof -
  note a = write_callback_step[OF oka ra]
  note b = write_callback_step[OF okb rb]
  show ?thesis
  proof (cases "refused ha ca chunk")
    case True
    with eq have tb: "refused hb cb chunk" by simp
    from a[THEN conjunct2] True
    have "ca' = ca \<and> stored ha' ca' = stored ha ca \<and> blocks ha' = blocks ha"
      by (auto split: if_splits)
    then have a0: "ca' = ca" "stored ha' ca' = stored ha ca" by blast+
    from b[THEN conjunct2] tb
    have "cb' = cb \<and> stored hb' cb' = stored hb cb \<and> blocks hb' = blocks hb"
      by (auto split: if_splits)
    then have b0: "cb' = cb" "stored hb' cb' = stored hb cb" by blast+
    from a0(2) b0(2) st have "stored ha' ca' = stored hb' cb'" by simp
    with sz cp a0(1) b0(1) show ?thesis by simp
  next
    case False
    with eq have nb: "\<not> refused hb cb chunk" by simp
    from a False have a1: "stored ha' ca' = stored ha ca @ chunk"
      "unat (ctx_size ca') = unat (ctx_size ca) + length chunk" by simp_all
    from b nb have b1: "stored hb' cb' = stored hb cb @ chunk"
      "unat (ctx_size cb') = unat (ctx_size cb) + length chunk" by simp_all
    from a1(2) b1(2) sz have "unat (ctx_size ca') = unat (ctx_size cb')" by simp
    then have s': "ctx_size ca' = ctx_size cb'" by (simp add: word_unat_eq_iff)
    from write_callback_capacity[OF oka ra False] write_callback_capacity[OF okb rb nb] sz cp
    have "ctx_capacity ca' = ctx_capacity cb'" by (auto split: if_splits)
    with s' a1(1) b1(1) st show ?thesis by simp
  qed
qed

lemma lockstep_run:
  assumes "ctx_ok ha ca" and "ctx_ok hb cb" and "same_drops ha ca hb cb chunks"
    and "ctx_size ca = ctx_size cb" and "ctx_capacity ca = ctx_capacity cb"
    and "stored ha ca = stored hb cb"
    and "sink_all write_callback ha ca chunks = Inr (ha', ca')"
    and "sink_all write_callback hb cb chunks = Inr (hb', cb')"
  shows "ctx_size ca' = ctx_size cb' \<and> stored ha' ca' = stored hb' cb'"
  using assms
proof (induction chunks arbitrary: ha ca hb cb)
  case Nil
  then show ?case by simp
next
  case (Cons c cs)
  from Cons.prems(7) obtain ha1 ca1 where
    sa: "write_callback ha ca c = Inr (ha1, ca1)"
    and ta: "sink_all write_callback ha1 ca1 cs = Inr (ha', ca')"
    by (auto split: sum.splits)
  from Cons.prems(8) obtain hb1 cb1 where
    sb: "write_callback hb cb c = Inr (hb1, cb1)"
    and tb: "sink_all write_callback hb1 cb1 cs = Inr (hb', cb')"
    by (auto split: sum.splits)
  from Cons.prems(3) sa sb have eq: "refused ha ca c \<longleftrightarrow> refused hb cb c"
    and sd: "same_drops ha1 ca1 hb1 cb1 cs" by simp_all
  from write_callback_step[OF Cons.prems(1) sa] have oka: "ctx_ok ha1 ca1" by blast
  from write_callback_step[OF Cons.prems(2) sb] have okb: "ctx_ok hb1 cb1" by blast
  note s = lockstep_step[OF Cons.prems(1,2) eq Cons.prems(4-6) sa sb]
  from s have s2: "ctx_size ca1 = ctx_size cb1"
    and s3: "ctx_capacity ca1 = ctx_capacity cb1" and s4: "stored ha1 ca1 = stored hb1 cb1"
    by blast+
  from Cons.IH[OF oka okb sd s2 s3 s4 ta tb] show ?case .
qed

section \<open>The adapters after the encoder\<close>

lemma jpg_adapter_is_png_adapter:
  "stb_write_jpg_to_memory enc h output output_len w hh comps px quality
   = stb_write_png_to_memory enc h output output_len w hh comps px quality"
  by (simp add: stb_write_jpg_to_memory_def stb_write_png_to_memory_def
      stbi_write_jpg_to_func_def stbi_write_png_to_func_def)

lemma jpg_encoder_is_png_encoder:
  "stbi_write_jpg_to_func enc func h ctx w hh comps px quality
   = stbi_write_png_to_func enc func h ctx w hh comps px quality"
  by (simp add: stbi_write_jpg_to_func_def stbi_write_png_to_func_def)

lemma encoder_Inr:
  "stbi_write_png_to_func enc func h ctx w hh comps px p = Inr (h1, ctx1, result)
   \<longleftrightarrow> sink_all func h ctx (fst (enc w hh comps px p)) = Inr (h1, ctx1)
       \<and> result = snd (enc w hh comps px p)"
  by (auto simp: stbi_write_png_to_func_def split: sum.splits)

text \<open>What the adapter returns, given what the encoder left.\<close>

lemma adapter_after_encoder:
  assumes e: "stbi_write_png_to_func enc write_callback h empty_ctx w hh comps px p
              = Inr (h1, ctx, result)"
  shows "stb_write_png_to_memory enc h output output_len w hh comps px p =
     (if result \<noteq> 0 \<and> 0 < ctx_size ctx
      then Inr \<lparr>mem = h1, output_slot = ctx_data ctx, output_len_slot = ctx_size ctx, retval = 1\<rparr>
      else Inr \<lparr>mem = (if ctx_data ctx = 0 then h1
                         else h1\<lparr>blocks := (blocks h1)(ctx_data ctx := None)\<rparr>),
                output_slot = output, output_len_slot = output_len, retval = 0\<rparr>)"
proof -
  from e have "sink_all write_callback h empty_ctx (fst (enc w hh comps px p)) = Inr (h1, ctx)"
    by (simp add: encoder_Inr)
  from run_ok[OF ctx_ok_empty this] have "ctx_data ctx = 0 \<or> blocks h1 (ctx_data ctx) \<noteq> None"
    by (auto simp: ctx_ok_def split: if_splits option.splits)
  then show ?thesis using e
    by (auto simp: stb_write_png_to_memory_def free_def)
qed

lemma adapter_Inr:
  assumes "stb_write_png_to_memory enc h output output_len w hh comps px p = Inr r"
  shows "\<exists>h1 ctx. stbi_write_png_to_func enc write_callback h empty_ctx w hh comps px p
           = Inr (h1, ctx, snd (enc w hh comps px p))"
  using assms
  by (auto simp: stb_write_png_to_memory_def stbi_write_png_to_func_def split: sum.splits)

lemma failed_adapter_restores_heap:
  assumes hok: "heap_ok h"
    and e: "stbi_write_png_to_func enc write_callback h empty_ctx w hh comps px p
            = Inr (h1, ctx, result)"
    and f: "result = 0 \<or> ctx_size ctx = 0"
  shows "\<exists>r. stb_write_png_to_memory enc h output output_len w hh comps px p = Inr r
           \<and> retval r = 0 \<and> output_slot r = output \<and> output_len_slot r = output_len
           \<and> blocks (mem r) = blocks h
           \<and> (ctx_data ctx = 0 \<or> blocks (mem r) (ctx_data ctx) = None)"
proof -
  let ?h2 = "if ctx_data ctx = 0 then h1 else h1\<lparr>blocks := (blocks h1)(ctx_data ctx := None)\<rparr>"
  let ?r = "\<lparr>mem = ?h2, output_slot = output, output_len_slot = output_len, retval = 0\<rparr>"
  have r: "stb_write_png_to_memory enc h output output_len w hh comps px p = Inr ?r"
    unfolding adapter_after_encoder[OF e] using f by auto
  from e have run: "sink_all write_callback h empty_ctx (fst (enc w hh comps px p)) = Inr (h1, ctx)"
    by (simp add: encoder_Inr)
  from framed_run[OF hok ctx_ok_empty framed_start run] have fr: "framed h h1 ctx" .
  have "blocks ?h2 a = blocks h a" for a
  proof (cases "ctx_data ctx = 0")
    case True
    with fr show ?thesis by (simp add: framed_def)
  next
    case False
    with fr have lo: "nextblock h < ctx_data ctx"
      and same: "\<forall>b. b = ctx_data ctx \<or> blocks h1 b = blocks h b" by (simp_all add: framed_def)
    from hok lo have "blocks h (ctx_data ctx) = None" by (auto simp: heap_ok_def)
    with same False show ?thesis by (cases "a = ctx_data ctx") auto
  qed
  then have "blocks ?h2 = blocks h" by (rule ext)
  moreover have "ctx_data ctx = 0 \<or> blocks ?h2 (ctx_data ctx) = None" by simp
  ultimately show ?thesis using r by simp
qed

lemma output_buffer_success:
  assumes "ctx_ok h1 ctx" and "0 < ctx_size ctx"
  shows "output_buffer \<lparr>mem = h1, output_slot = ctx_data ctx, output_len_slot = ctx_size ctx,
                          retval = v\<rparr> = stored h1 ctx"
  using assms
  by (auto simp: output_buffer_def stored_def ctx_ok_def split: if_splits option.splits)

lemma same_drops_same_output:
  assumes sa: "same_drops ha empty_ctx hb empty_ctx (fst (enc w hh comps px p))"
    and a: "stb_write_png_to_memory enc ha out_a len_a w hh comps px p = Inr ra"
    and b: "stb_write_png_to_memory enc hb out_b len_b w hh comps px p = Inr rb"
  shows "retval ra = retval rb
         \<and> (retval ra = 1 \<longrightarrow> output_len_slot ra = output_len_slot rb
                               \<and> output_buffer ra = output_buffer rb)"
proof -
  let ?cs = "fst (enc w hh comps px p)"
  let ?res = "snd (enc w hh comps px p)"
  from adapter_Inr[OF a] obtain h1a ca where
    ea: "stbi_write_png_to_func enc write_callback ha empty_ctx w hh comps px p = Inr (h1a, ca, ?res)"
    by blast
  from adapter_Inr[OF b] obtain h1b cb where
    eb: "stbi_write_png_to_func enc write_callback hb empty_ctx w hh comps px p = Inr (h1b, cb, ?res)"
    by blast
  from ea have runa: "sink_all write_callback ha empty_ctx ?cs = Inr (h1a, ca)"
    by (simp add: encoder_Inr)
  from eb have runb: "sink_all write_callback hb empty_ctx ?cs = Inr (h1b, cb)"
    by (simp add: encoder_Inr)
  have st0: "stored ha empty_ctx = stored hb empty_ctx" by (simp add: stored_empty)
  from lockstep_run[OF ctx_ok_empty ctx_ok_empty sa refl refl st0 runa runb]
  have sz: "ctx_size ca = ctx_size cb" and st: "stored h1a ca = stored h1b cb" by blast+
  from run_ok[OF ctx_ok_empty runa] have oka: "ctx_ok h1a ca" .
  from run_ok[OF ctx_ok_empty runb] have okb: "ctx_ok h1b cb" .
  show ?thesis
  proof (cases "?res \<noteq> 0 \<and> 0 < ctx_size ca")
    case True
    with sz have tb: "?res \<noteq> 0 \<and> 0 < ctx_size cb" by simp
    from a True have ra: "ra = \<lparr>mem = h1a, output_slot = ctx_data ca,
        output_len_slot = ctx_size ca, retval = 1\<rparr>"
      unfolding adapter_after_encoder[OF ea] by simp
    from b tb have rb: "rb = \<lparr>mem = h1b, output_slot = ctx_data cb,
        output_len_slot = ctx_size cb, retval = 1\<rparr>"
      unfolding adapter_after_encoder[OF eb] by simp
    from True have pa: "0 < ctx_size ca" by simp
    from tb have pb: "0 < ctx_size cb" by simp
    from output_buffer_success[OF oka pa] output_buffer_success[OF okb pb] st
    have "output_buffer ra = output_buffer rb" unfolding ra rb by simp
    with sz show ?thesis unfolding ra rb by simp
  next
    case False
    with sz have fb: "\<not> (?res \<noteq> 0 \<and> 0 < ctx_size cb)" by simp
    from a False have "retval ra = 0"
      unfolding adapter_after_encoder[OF ea] by (auto split: if_splits)
    moreover from b fb have "retval rb = 0"
      unfolding adapter_after_encoder[OF eb] by (auto split: if_splits)
    ultimately show ?thesis by simp
  qed
qed

section \<open>The output length (C1)\<close>

text \<open>
  C1, as the spec states it, fails when \<open>realloc\<close> returns \<open>NULL\<close> for one chunk and the
  encoder, which is told nothing, goes on and reports success. Here the encoder emits two
  chunks of one byte; the first is refused and dropped, the second is stored. The adapter
  returns \<open>1\<close> with the length \<open>1\<close>, while \<open>2\<close> bytes were passed to the append operation.
\<close>

theorem short_output_len_counterexample:
  "stb_write_jpg_to_memory (\<lambda>w hh comps px quality. ([[1], [2]], 1))
       \<lparr>blocks = Map.empty, nextblock = 0, replies = [Refuse, Grant (\<lambda>i. 0)]\<rparr> 0 0 1 1 3 () 90
     = Inr \<lparr>mem = \<lparr>blocks = [1 \<mapsto> [2] @ replicate 4095 0], nextblock = 1, replies = []\<rparr>,
            output_slot = 1, output_len_slot = 1, retval = 1\<rparr>
   \<and> sum_list (map length [[1], [2 :: byte]]) = 2"
  by (simp add: stb_write_jpg_to_memory_def stbi_write_jpg_to_func_def write_callback_def
      empty_ctx_def double_until.simps realloc_def copy_and_advance_def memcpy_def Let_def
      map_replicate_const)

text \<open>
  C1, amended. For every successful encode call (either adapter returning \<open>1\<close>) during which
  no chunk was dropped, which is to say that \<open>realloc\<close> never failed, the value stored in the
  output length slot is the sum of the sizes of the chunks the encoder passed to the append
  operation.
\<close>

theorem output_len_is_sum_of_chunks:
  assumes "\<not> drops h empty_ctx (fst (enc w hh comps px p))"
    and "stb_write_png_to_memory enc h output output_len w hh comps px p = Inr r
         \<or> stb_write_jpg_to_memory enc h output output_len w hh comps px p = Inr r"
    and "retval r = 1"
  shows "unat (output_len_slot r) = sum_list (map length (fst (enc w hh comps px p)))"
proof -
  from assms(2) have a: "stb_write_png_to_memory enc h output output_len w hh comps px p = Inr r"
    by (simp add: jpg_adapter_is_png_adapter)
  from adapter_Inr[OF a] obtain h1 ctx where
    e: "stbi_write_png_to_func enc write_callback h empty_ctx w hh comps px p
        = Inr (h1, ctx, snd (enc w hh comps px p))" by blast
  from a assms(3) have "output_len_slot r = ctx_size ctx"
    unfolding adapter_after_encoder[OF e] by (auto split: if_splits)
  moreover from e have "sink_all write_callback h empty_ctx (fst (enc w hh comps px p)) = Inr (h1, ctx)"
    by (simp add: encoder_Inr)
  from run_kept[OF ctx_ok_empty assms(1) this]
  have "unat (ctx_size ctx) = sum_list (map length (fst (enc w hh comps px p)))"
    by (simp add: empty_ctx_def)
  ultimately show ?thesis by simp
qed

theorem output_len_is_sum_of_chunks_witness:
  "stb_write_jpg_to_memory (\<lambda>w hh comps px quality. ([[1], [2]], 1))
       \<lparr>blocks = Map.empty, nextblock = 0, replies = [Grant (\<lambda>i. 0)]\<rparr>
       0 0 1 1 3 () 90
     = Inr \<lparr>mem = \<lparr>blocks = [1 \<mapsto> [1, 2] @ replicate 4094 0], nextblock = 1,
                    replies = []\<rparr>,
            output_slot = 1, output_len_slot = 2, retval = 1\<rparr>
   \<and> unat (2 :: size_t) = sum_list (map length [[1], [2 :: byte]])"
proof -
  let ?enc = "(\<lambda>w hh comps px quality. ([[1], [2]], 1)) :: unit encoder"
  let ?h = "\<lparr>blocks = Map.empty, nextblock = 0, replies = [Grant (\<lambda>i. 0)]\<rparr>"
  let ?r = "\<lparr>mem = \<lparr>blocks = [1 \<mapsto> [1, 2] @ replicate 4094 0], nextblock = 1,
                    replies = []\<rparr>,
            output_slot = 1, output_len_slot = 2, retval = 1\<rparr>"
  have r: "stb_write_jpg_to_memory ?enc ?h 0 0 1 1 3 () 90 = Inr ?r"
    by (simp add: stb_write_jpg_to_memory_def stbi_write_jpg_to_func_def write_callback_def
      empty_ctx_def double_until.simps realloc_def copy_and_advance_def memcpy_def Let_def
      map_replicate_const)
  have g: "\<not> drops ?h empty_ctx (fst (?enc 1 1 3 () 90))"
    by (simp add: refused_def write_callback_def empty_ctx_def double_until.simps realloc_def
      copy_and_advance_def memcpy_def Let_def map_replicate_const)
  have "retval ?r = 1" by simp
  from output_len_is_sum_of_chunks[OF g disjI2[OF r] this] r show ?thesis by simp
qed

section \<open>Concatenation of the chunks (C2)\<close>

text \<open>
  C2, as the spec states it, fails when \<open>realloc\<close> returns \<open>NULL\<close>: the chunk is dropped. Here
  the only append of one byte is refused; the context stays empty, so the capacity \<open>0\<close> is
  below the cumulative size \<open>1\<close> and the buffer does not hold the chunk.
\<close>

theorem dropped_chunk_counterexample:
  "sink_all write_callback \<lparr>blocks = Map.empty, nextblock = 0, replies = [Refuse]\<rparr>
       empty_ctx [[1]]
     = Inr (\<lparr>blocks = Map.empty, nextblock = 0, replies = []\<rparr>, empty_ctx)
   \<and> stored \<lparr>blocks = Map.empty, nextblock = 0, replies = []\<rparr> empty_ctx \<noteq> concat [[1]]
   \<and> unat (ctx_capacity empty_ctx) < sum_list (map length [[1 :: byte]])"
  by (simp add: write_callback_def empty_ctx_def double_until.simps realloc_def stored_def)

text \<open>
  C2, amended. For a sequence of \<open>write_callback\<close> calls from the empty context in which no
  chunk is dropped (\<open>realloc\<close> never fails) and whose chunk sizes sum to less than \<open>2 ^ 31\<close>, every
  prefix of the calls returns, and after it \<open>size\<close> is the cumulative size, the first \<open>size\<close>
  bytes of the buffer are the chunks so far, concatenated in call order, and the capacity
  is at least the cumulative size.
\<close>

theorem granted_appends_concatenate:
  assumes "\<not> drops h empty_ctx chunks" and "sum_list (map length chunks) < 2 ^ 31"
  shows "\<forall>k\<le>length chunks. \<exists>h' ctx'.
      sink_all write_callback h empty_ctx (take k chunks) = Inr (h', ctx')
      \<and> unat (ctx_size ctx') = sum_list (map length (take k chunks))
      \<and> stored h' ctx' = concat (take k chunks)
      \<and> sum_list (map length (take k chunks)) \<le> unat (ctx_capacity ctx')"
proof (intro allI impI)
  fix k assume k: "k \<le> length chunks"
  let ?cs = "take k chunks"
  have ok: "ctx_ok h empty_ctx" by (rule ctx_ok_empty)
  have z: "unat (ctx_size empty_ctx) = 0" by (simp add: empty_ctx_def)
  from sum_length_take[of k chunks] assms(2) z
  have "unat (ctx_size empty_ctx) + sum_list (map length ?cs) < 2 ^ 31" by simp
  from run_returns[OF ok this] obtain h' ctx' where
    r: "sink_all write_callback h empty_ctx ?cs = Inr (h', ctx')" by blast
  from assms(1) drops_prefix[of h empty_ctx k chunks] have g: "\<not> drops h empty_ctx ?cs" by blast
  from run_kept[OF ok g r] z have a: "stored h' ctx' = concat ?cs"
    "unat (ctx_size ctx') = sum_list (map length ?cs)" by (simp_all add: stored_empty)
  from run_ok[OF ok r] have "ctx_size ctx' \<le> ctx_capacity ctx'"
    by (auto simp: ctx_ok_def split: if_splits option.splits)
  with a(2) have "sum_list (map length ?cs) \<le> unat (ctx_capacity ctx')"
    by (simp add: word_le_nat_alt)
  with r a show "\<exists>h' ctx'. sink_all write_callback h empty_ctx ?cs = Inr (h', ctx')
      \<and> unat (ctx_size ctx') = sum_list (map length ?cs)
      \<and> stored h' ctx' = concat ?cs
      \<and> sum_list (map length ?cs) \<le> unat (ctx_capacity ctx')" by blast
qed

theorem granted_appends_concatenate_witness:
  "\<exists>h' ctx'.
      sink_all write_callback
        \<lparr>blocks = Map.empty, nextblock = 0, replies = [Grant (\<lambda>i. 0)]\<rparr>
        empty_ctx [[1, 2], [3]] = Inr (h', ctx')
      \<and> unat (ctx_size ctx') = 3
      \<and> stored h' ctx' = [1, 2, 3]
      \<and> 3 \<le> unat (ctx_capacity ctx')"
proof -
  let ?h = "\<lparr>blocks = Map.empty, nextblock = 0, replies = [Grant (\<lambda>i. 0)]\<rparr>"
  let ?cs = "[[1, 2], [3 :: byte]]"
  have g: "\<not> drops ?h empty_ctx ?cs"
    by (simp add: refused_def write_callback_def empty_ctx_def double_until.simps realloc_def
      copy_and_advance_def memcpy_def Let_def map_replicate_const)
  have s: "sum_list (map length ?cs) < 2 ^ 31" by simp
  have k: "2 \<le> length ?cs" by simp
  have t: "take 2 ?cs = ?cs" by simp
  have sm: "sum_list (map length ?cs) = 3" by simp
  have cc: "concat ?cs = [1, 2, 3]" by simp
  from granted_appends_concatenate[OF g s, rule_format, OF k]
  show ?thesis by (simp only: t sm cc)
qed

section \<open>Success of an adapter (C3)\<close>

text \<open>
  C3. Each adapter, once the encoder has returned, returns \<open>1\<close> or \<open>0\<close>, and \<open>1\<close> exactly when
  the encoder's result is non-zero and the context's \<open>size\<close> is above \<open>0\<close>, which is to say
  that the buffer holds at least one appended byte. With \<open>1\<close>, the
  output pointer slot holds the context's \<open>data\<close>, the output length slot holds the
  context's \<open>size\<close>, and the heap is as the encoder left it, the block of \<open>data\<close> still
  allocated.
\<close>

theorem adapter_success_iff:
  "(stbi_write_png_to_func enc write_callback h empty_ctx w hh comps px p = Inr (h1, ctx, result)
      \<longrightarrow> (\<exists>r. stb_write_png_to_memory enc h output output_len w hh comps px p = Inr r
             \<and> (retval r = 1 \<or> retval r = 0)
             \<and> (retval r = 1 \<longleftrightarrow> result \<noteq> 0 \<and> 0 < ctx_size ctx)
             \<and> (0 < ctx_size ctx \<longleftrightarrow> stored h1 ctx \<noteq> [])
             \<and> (retval r = 1 \<longrightarrow> output_slot r = ctx_data ctx \<and> output_len_slot r = ctx_size ctx
                   \<and> mem r = h1 \<and> blocks h1 (ctx_data ctx) \<noteq> None)))
   \<and> (stbi_write_jpg_to_func enc write_callback h empty_ctx w hh comps px p = Inr (h1, ctx, result)
      \<longrightarrow> (\<exists>r. stb_write_jpg_to_memory enc h output output_len w hh comps px p = Inr r
             \<and> (retval r = 1 \<or> retval r = 0)
             \<and> (retval r = 1 \<longleftrightarrow> result \<noteq> 0 \<and> 0 < ctx_size ctx)
             \<and> (0 < ctx_size ctx \<longleftrightarrow> stored h1 ctx \<noteq> [])
             \<and> (retval r = 1 \<longrightarrow> output_slot r = ctx_data ctx \<and> output_len_slot r = ctx_size ctx
                   \<and> mem r = h1 \<and> blocks h1 (ctx_data ctx) \<noteq> None)))"
proof -
  have png: "\<exists>r. stb_write_png_to_memory enc h output output_len w hh comps px p = Inr r
             \<and> (retval r = 1 \<or> retval r = 0)
             \<and> (retval r = 1 \<longleftrightarrow> result \<noteq> 0 \<and> 0 < ctx_size ctx)
             \<and> (0 < ctx_size ctx \<longleftrightarrow> stored h1 ctx \<noteq> [])
             \<and> (retval r = 1 \<longrightarrow> output_slot r = ctx_data ctx \<and> output_len_slot r = ctx_size ctx
                   \<and> mem r = h1 \<and> blocks h1 (ctx_data ctx) \<noteq> None)"
    if e: "stbi_write_png_to_func enc write_callback h empty_ctx w hh comps px p = Inr (h1, ctx, result)"
  proof -
    from e have "sink_all write_callback h empty_ctx (fst (enc w hh comps px p)) = Inr (h1, ctx)"
      by (simp add: encoder_Inr)
    from run_ok[OF ctx_ok_empty this] have ok: "ctx_ok h1 ctx" .
    have live: "blocks h1 (ctx_data ctx) \<noteq> None" if "0 < ctx_size ctx"
      using ok that by (auto simp: ctx_ok_def split: if_splits option.splits)
    from length_stored[OF ok] have "stored h1 ctx \<noteq> [] \<longleftrightarrow> unat (ctx_size ctx) \<noteq> 0"
      by (metis length_0_conv)
    then have some: "0 < ctx_size ctx \<longleftrightarrow> stored h1 ctx \<noteq> []"
      by (simp add: word_less_nat_alt)
    show ?thesis
      unfolding adapter_after_encoder[OF e] using live some by auto
  qed
  show ?thesis
    unfolding jpg_adapter_is_png_adapter jpg_encoder_is_png_encoder using png by blast
qed

theorem adapter_success_iff_witness:
  "stb_write_png_to_memory (\<lambda>w hh comps px p. ([[1, 2, 3]], 1))
       \<lparr>blocks = Map.empty, nextblock = 0, replies = [Grant (\<lambda>i. 0)]\<rparr> 0 0 1 1 3 () 3
     = Inr \<lparr>mem = \<lparr>blocks = [1 \<mapsto> [1, 2, 3] @ replicate 4093 0], nextblock = 1, replies = []\<rparr>,
            output_slot = 1, output_len_slot = 3, retval = 1\<rparr>
   \<and> stb_write_jpg_to_memory (\<lambda>w hh comps px p. ([[1, 2, 3]], 1))
       \<lparr>blocks = Map.empty, nextblock = 0, replies = [Grant (\<lambda>i. 0)]\<rparr> 0 0 1 1 3 () 90
     = Inr \<lparr>mem = \<lparr>blocks = [1 \<mapsto> [1, 2, 3] @ replicate 4093 0], nextblock = 1, replies = []\<rparr>,
            output_slot = 1, output_len_slot = 3, retval = 1\<rparr>"
proof -
  let ?enc = "(\<lambda>w hh comps px p. ([[1, 2, 3]], 1)) :: unit encoder"
  let ?h = "\<lparr>blocks = Map.empty, nextblock = 0, replies = [Grant (\<lambda>i. 0)]\<rparr>"
  let ?h1 = "\<lparr>blocks = [1 \<mapsto> [1, 2, 3] @ replicate 4093 0], nextblock = 1, replies = []\<rparr>"
  let ?ctx = "\<lparr>ctx_data = 1, ctx_size = 3, ctx_capacity = 4096\<rparr>"
  have png: "stbi_write_png_to_func ?enc write_callback ?h empty_ctx 1 1 3 () 3 = Inr (?h1, ?ctx, 1)"
    by (simp add: stbi_write_png_to_func_def first_append_evaluates)
  have jpg: "stbi_write_jpg_to_func ?enc write_callback ?h empty_ctx 1 1 3 () 90 = Inr (?h1, ?ctx, 1)"
    by (simp add: stbi_write_jpg_to_func_def first_append_evaluates)
  from adapter_success_iff[of ?enc ?h 1 1 3 "()" 3 ?h1 ?ctx 1 0 0] png
  obtain r where r: "stb_write_png_to_memory ?enc ?h 0 0 1 1 3 () 3 = Inr r"
    "retval r = 1" "output_slot r = 1" "output_len_slot r = 3" "mem r = ?h1" by auto
  from adapter_success_iff[of ?enc ?h 1 1 3 "()" 90 ?h1 ?ctx 1 0 0] jpg
  obtain r' where r': "stb_write_jpg_to_memory ?enc ?h 0 0 1 1 3 () 90 = Inr r'"
    "retval r' = 1" "output_slot r' = 1" "output_len_slot r' = 3" "mem r' = ?h1" by auto
  from r r' show ?thesis by simp
qed

section \<open>Failure of an adapter (C4)\<close>

text \<open>
  C4. When the encoder has returned with a failure result, or with nothing stored in the
  context, each adapter returns \<open>0\<close>, leaves the output pointer slot and the output length
  slot with the values they had, and has released the buffer it accumulated: the blocks of
  the heap are those from before the call, and the context's \<open>data\<close> is no block of it.
\<close>

theorem adapter_failure_releases_buffer:
  assumes "heap_ok h"
  shows
   "(stbi_write_png_to_func enc write_callback h empty_ctx w hh comps px p = Inr (h1, ctx, result)
       \<and> (result = 0 \<or> ctx_size ctx = 0)
      \<longrightarrow> (\<exists>r. stb_write_png_to_memory enc h output output_len w hh comps px p = Inr r
             \<and> retval r = 0 \<and> output_slot r = output \<and> output_len_slot r = output_len
             \<and> blocks (mem r) = blocks h
             \<and> (ctx_data ctx = 0 \<or> blocks (mem r) (ctx_data ctx) = None)))
    \<and> (stbi_write_jpg_to_func enc write_callback h empty_ctx w hh comps px p = Inr (h1, ctx, result)
       \<and> (result = 0 \<or> ctx_size ctx = 0)
      \<longrightarrow> (\<exists>r. stb_write_jpg_to_memory enc h output output_len w hh comps px p = Inr r
             \<and> retval r = 0 \<and> output_slot r = output \<and> output_len_slot r = output_len
             \<and> blocks (mem r) = blocks h
             \<and> (ctx_data ctx = 0 \<or> blocks (mem r) (ctx_data ctx) = None)))"
  unfolding jpg_adapter_is_png_adapter jpg_encoder_is_png_encoder
  by (intro conjI impI; elim conjE; rule failed_adapter_restores_heap[OF assms]; assumption)

theorem adapter_failure_releases_buffer_witness:
  "stbi_write_png_to_func (\<lambda>w hh comps px p. ([[1, 2, 3]], 0)) write_callback
       \<lparr>blocks = Map.empty, nextblock = 0, replies = [Grant (\<lambda>i. 0)]\<rparr> empty_ctx 1 1 3 () 3
     = Inr (\<lparr>blocks = [1 \<mapsto> [1, 2, 3] @ replicate 4093 0], nextblock = 1, replies = []\<rparr>,
            \<lparr>ctx_data = 1, ctx_size = 3, ctx_capacity = 4096\<rparr>, 0)
   \<and> (\<exists>r. stb_write_png_to_memory (\<lambda>w hh comps px p. ([[1, 2, 3]], 0))
              \<lparr>blocks = Map.empty, nextblock = 0, replies = [Grant (\<lambda>i. 0)]\<rparr> 7 9 1 1 3 () 3
            = Inr r
          \<and> retval r = 0 \<and> output_slot r = 7 \<and> output_len_slot r = 9
          \<and> blocks (mem r) = Map.empty \<and> blocks (mem r) 1 = None)"
proof -
  let ?enc = "(\<lambda>w hh comps px p. ([[1, 2, 3]], 0)) :: unit encoder"
  let ?h = "\<lparr>blocks = Map.empty, nextblock = 0, replies = [Grant (\<lambda>i. 0)]\<rparr>"
  let ?h1 = "\<lparr>blocks = [1 \<mapsto> [1, 2, 3] @ replicate 4093 0], nextblock = 1, replies = []\<rparr>"
  let ?ctx = "\<lparr>ctx_data = 1, ctx_size = 3, ctx_capacity = 4096\<rparr>"
  have hok: "heap_ok ?h" by (simp add: heap_ok_def)
  have e: "stbi_write_png_to_func ?enc write_callback ?h empty_ctx 1 1 3 () 3 = Inr (?h1, ?ctx, 0)"
    by (simp add: stbi_write_png_to_func_def first_append_evaluates)
  from adapter_failure_releases_buffer[OF hok, of ?enc 1 1 3 "()" 3 ?h1 ?ctx 0 7 9] e
  show ?thesis by simp
qed

section \<open>The invariant of the context (C5)\<close>

text \<open>
  C5. The invariant of the Write Context, \<open>size \<le> capacity\<close> and \<open>data\<close> non-null
  whenever \<open>capacity > 0\<close>, holds of the initial context \<open>{NULL, 0, 0}\<close>, and every
  execution of \<open>write_callback\<close> that returns preserves it, whatever the allocator answers;
  in particular when \<open>realloc\<close> returns \<open>NULL\<close>.
\<close>

theorem write_context_invariant:
  "ctx_invariant empty_ctx
   \<and> (\<forall>h ctx chunk h' ctx'.
         ctx_invariant ctx \<and> write_callback h ctx chunk = Inr (h', ctx') \<longrightarrow> ctx_invariant ctx')"
proof -
  have "ctx_invariant empty_ctx" by (simp add: ctx_invariant_def empty_ctx_def)
  then show ?thesis using write_callback_invariant_step by blast
qed

theorem write_context_invariant_witness:
  "ctx_invariant empty_ctx
   \<and> write_callback \<lparr>blocks = Map.empty, nextblock = 0, replies = [Grant (\<lambda>i. 0)]\<rparr>
         empty_ctx [1, 2, 3]
       = Inr (\<lparr>blocks = [1 \<mapsto> [1, 2, 3] @ replicate 4093 0], nextblock = 1, replies = []\<rparr>,
              \<lparr>ctx_data = 1, ctx_size = 3, ctx_capacity = 4096\<rparr>)
   \<and> ctx_invariant \<lparr>ctx_data = 1, ctx_size = 3, ctx_capacity = 4096\<rparr>
   \<and> write_callback \<lparr>blocks = Map.empty, nextblock = 0, replies = []\<rparr> empty_ctx [7]
       = Inr (\<lparr>blocks = Map.empty, nextblock = 0, replies = []\<rparr>, empty_ctx)"
proof -
  have r: "write_callback \<lparr>blocks = Map.empty, nextblock = 0, replies = []\<rparr> empty_ctx [7]
       = Inr (\<lparr>blocks = Map.empty, nextblock = 0, replies = []\<rparr>, empty_ctx)"
    by (simp add: write_callback_def empty_ctx_def double_until.simps realloc_def)
  from write_context_invariant have i: "ctx_invariant empty_ctx" by blast
  from write_context_invariant i first_append_evaluates
  have "ctx_invariant \<lparr>ctx_data = 1, ctx_size = 3, ctx_capacity = 4096\<rparr>" by blast
  with i r first_append_evaluates show ?thesis by blast
qed

section \<open>The new capacity (C6)\<close>



section \<open>Monotone capacity (C7)\<close>

text \<open>
  C7. In a sequence of appends that starts from the empty context, the capacity never
  decreases: it is at least its former value after one append and after any number of further
  appends. An append that changes the capacity at least doubles it, and leaves it at
  \<open>4096\<close> or more.
\<close>

theorem capacity_never_shrinks_and_doubles:
  assumes "sink_all write_callback h0 empty_ctx earlier = Inr (h, ctx)"
    and "write_callback h ctx chunk = Inr (h1, ctx1)"
    and "sink_all write_callback h1 ctx1 later = Inr (h2, ctx2)"
  shows "ctx_capacity ctx \<le> ctx_capacity ctx1 \<and> ctx_capacity ctx1 \<le> ctx_capacity ctx2
         \<and> (ctx_capacity ctx1 = ctx_capacity ctx
             \<or> 2 * unat (ctx_capacity ctx) \<le> unat (ctx_capacity ctx1)
                \<and> 4096 \<le> unat (ctx_capacity ctx1))"
proof -
  have "ctx_capacity empty_ctx = 0" by (simp add: empty_ctx_def)
  then have p0: "ctx_capacity empty_ctx = 0
      \<or> (\<exists>k. 12 \<le> k \<and> k < 32 \<and> ctx_capacity empty_ctx = 2 ^ k)" by blast
  from capacity_run[OF assms(1) p0]
  have p: "ctx_capacity ctx = 0 \<or> (\<exists>k. 12 \<le> k \<and> k < 32 \<and> ctx_capacity ctx = 2 ^ k)" by blast
  note a = capacity_step[OF assms(2) p]
  from a have p1: "ctx_capacity ctx1 = 0 \<or> (\<exists>k. 12 \<le> k \<and> k < 32 \<and> ctx_capacity ctx1 = 2 ^ k)"
    by blast
  note b = capacity_run[OF assms(3) p1]
  from a have "ctx_capacity ctx \<le> ctx_capacity ctx1" by (auto simp: word_le_nat_alt)
  moreover from b have "ctx_capacity ctx1 \<le> ctx_capacity ctx2" by (auto simp: word_le_nat_alt)
  ultimately show ?thesis using a by blast
qed

theorem capacity_never_shrinks_and_doubles_witness:
  "\<exists>h1 ctx1 h2 ctx2.
     write_callback \<lparr>blocks = Map.empty, nextblock = 0, replies = [Grant (\<lambda>i. 0)]\<rparr>
        empty_ctx [1] = Inr (h1, ctx1)
     \<and> sink_all write_callback h1 ctx1 [[2], [3]] = Inr (h2, ctx2)
     \<and> ctx_capacity ctx1 = 4096
     \<and> ctx_capacity empty_ctx \<le> ctx_capacity ctx1 \<and> ctx_capacity ctx1 \<le> ctx_capacity ctx2
     \<and> (ctx_capacity ctx1 = ctx_capacity empty_ctx
         \<or> 2 * unat (ctx_capacity empty_ctx) \<le> unat (ctx_capacity ctx1)
            \<and> 4096 \<le> unat (ctx_capacity ctx1))"
proof -
  let ?h = "\<lparr>blocks = Map.empty, nextblock = 0, replies = [Grant (\<lambda>i. 0)]\<rparr>"
  have ok: "ctx_ok ?h empty_ctx" by (rule ctx_ok_empty)
  have e: "sink_all write_callback ?h empty_ctx [] = Inr (?h, empty_ctx)" by simp
  have "unat (ctx_size empty_ctx) + length [1 :: byte] < 2 ^ 31" by (simp add: empty_ctx_def)
  from write_callback_returns[OF ok this] obtain h1 ctx1 where
    s: "write_callback ?h empty_ctx [1] = Inr (h1, ctx1)" by blast
  have need: "ctx_capacity empty_ctx < ctx_size empty_ctx + of_nat (length [1 :: byte])"
    by (simp add: empty_ctx_def)
  have "replies ?h = Grant (\<lambda>i. 0) # []" by simp
  from write_callback_grown[OF ok s need this]
  have "double_until 4096 1 = Some (ctx_capacity ctx1)" by (simp add: empty_ctx_def)
  then have c1: "ctx_capacity ctx1 = 4096" by (simp add: double_until.simps)
  note st = write_callback_step[OF ok s]
  from st have ok1: "ctx_ok h1 ctx1" by blast
  from st have "unat (ctx_size ctx1) \<le> 1" by (auto simp: empty_ctx_def split: if_splits)
  then have "unat (ctx_size ctx1) + sum_list (map length [[2], [3 :: byte]]) < 2 ^ 31" by simp
  from run_returns[OF ok1 this] obtain h2 ctx2 where
    t: "sink_all write_callback h1 ctx1 [[2], [3]] = Inr (h2, ctx2)" by blast
  from capacity_never_shrinks_and_doubles[OF e s t] s t c1 show ?thesis by blast
qed

section \<open>Failure of realloc (C8)\<close>

text \<open>
  C8. If \<open>realloc\<close> fails during an append (it returns \<open>NULL\<close>), \<open>write_callback\<close> returns
  normally, with no error value, and with the Write Context as it was: \<open>data\<close>, \<open>size\<close> and
  \<open>capacity\<close> keep their values; no block of the heap changes, so nothing is copied.
\<close>

theorem realloc_failure_is_silent:
  assumes "length chunk < 2 ^ 31"
    and "ctx_capacity ctx < ctx_size ctx + of_nat (length chunk)"
    and "double_until (if ctx_capacity ctx = 0 then 4096 else ctx_capacity ctx * 2)
           (ctx_size ctx + of_nat (length chunk)) = Some new_capacity"
    and "realloc h (ctx_data ctx) new_capacity = Inr (h1, 0)"
  shows "write_callback h ctx chunk = Inr (h1, ctx) \<and> blocks h1 = blocks h"
  using assms realloc_refused[of h "ctx_data ctx" new_capacity h1]
  by (simp add: write_callback_def)

theorem realloc_failure_is_silent_witness:
  "write_callback \<lparr>blocks = Map.empty, nextblock = 0, replies = [Refuse]\<rparr> empty_ctx [1, 2, 3]
     = Inr (\<lparr>blocks = Map.empty, nextblock = 0, replies = []\<rparr>, empty_ctx)
   \<and> blocks \<lparr>blocks = Map.empty, nextblock = 0, replies = []\<rparr>
     = blocks \<lparr>blocks = Map.empty, nextblock = 0, replies = [Refuse]\<rparr>"
proof -
  let ?h = "\<lparr>blocks = Map.empty, nextblock = 0, replies = [Refuse]\<rparr>"
  have 1: "length [1, 2, 3 :: byte] < 2 ^ 31" by simp
  have 2: "ctx_capacity empty_ctx < ctx_size empty_ctx + of_nat (length [1, 2, 3 :: byte])"
    by (simp add: empty_ctx_def)
  have 3: "double_until (if ctx_capacity empty_ctx = 0 then 4096 else ctx_capacity empty_ctx * 2)
           (ctx_size empty_ctx + of_nat (length [1, 2, 3 :: byte])) = Some 4096"
    by (simp add: empty_ctx_def double_until.simps)
  have 4: "realloc ?h (ctx_data empty_ctx) 4096
             = Inr (\<lparr>blocks = Map.empty, nextblock = 0, replies = []\<rparr>, 0)"
    by (simp add: empty_ctx_def realloc_def)
  from realloc_failure_is_silent[OF 1 2 3 4] show ?thesis .
qed

section \<open>Two encode calls (C9)\<close>

text \<open>
  C9, as the spec states it, fails: the output depends on what \<open>realloc\<close> answers. Here the
  same input is encoded twice in a row, the second call on the heap the first one left.
  The first call is granted its block and returns the two bytes the encoder emitted. In the
  second call the first chunk is refused and dropped; the call still returns \<open>1\<close>, with one
  byte.
\<close>

theorem second_call_differs_counterexample:
  "stb_write_jpg_to_memory (\<lambda>w hh comps px quality. ([[1], [2]], 1))
       \<lparr>blocks = Map.empty, nextblock = 0, replies = [Grant (\<lambda>i. 0), Refuse, Grant (\<lambda>i. 0)]\<rparr>
       0 0 1 1 3 () 90
     = Inr \<lparr>mem = \<lparr>blocks = [1 \<mapsto> [1, 2] @ replicate 4094 0], nextblock = 1,
                    replies = [Refuse, Grant (\<lambda>i. 0)]\<rparr>,
            output_slot = 1, output_len_slot = 2, retval = 1\<rparr>
   \<and> stb_write_jpg_to_memory (\<lambda>w hh comps px quality. ([[1], [2]], 1))
       \<lparr>blocks = [1 \<mapsto> [1, 2] @ replicate 4094 0], nextblock = 1,
         replies = [Refuse, Grant (\<lambda>i. 0)]\<rparr>
       0 0 1 1 3 () 90
     = Inr \<lparr>mem = \<lparr>blocks = [1 \<mapsto> [1, 2] @ replicate 4094 0, 2 \<mapsto> [2] @ replicate 4095 0],
                    nextblock = 2, replies = []\<rparr>,
            output_slot = 2, output_len_slot = 1, retval = 1\<rparr>
   \<and> output_buffer \<lparr>mem = \<lparr>blocks = [1 \<mapsto> [1, 2] @ replicate 4094 0], nextblock = 1,
                    replies = [Refuse, Grant (\<lambda>i. 0)]\<rparr>,
            output_slot = 1, output_len_slot = 2, retval = 1\<rparr> = [1, 2]
   \<and> output_buffer \<lparr>mem = \<lparr>blocks = [1 \<mapsto> [1, 2] @ replicate 4094 0,
                                     2 \<mapsto> [2] @ replicate 4095 0],
                    nextblock = 2, replies = []\<rparr>,
            output_slot = 2, output_len_slot = 1, retval = 1\<rparr> = [2]"
  by (simp add: stb_write_jpg_to_memory_def stbi_write_jpg_to_func_def write_callback_def
      empty_ctx_def double_until.simps realloc_def copy_and_advance_def memcpy_def Let_def
      map_replicate_const output_buffer_def numeral_2_eq_2[symmetric])

text \<open>
  C9, amended. Two encode calls by the same adapter with the same encoder, width, height,
  components, pixel data and format parameter, in which the same chunks are dropped (so in
  particular two calls in which \<open>realloc\<close> never fails), return the same value; when that is
  \<open>1\<close> they store the same length, and the output buffers hold the same bytes. Nothing else the calls differ in matters: the
  heaps they start on, the addresses and the indeterminate bytes \<open>realloc\<close> hands out, the
  former contents of the output slots.
\<close>

theorem same_input_same_output:
  assumes "same_drops ha empty_ctx hb empty_ctx (fst (enc w hh comps px p))"
    and "stb_write_png_to_memory enc ha out_a len_a w hh comps px p = Inr ra
           \<and> stb_write_png_to_memory enc hb out_b len_b w hh comps px p = Inr rb
         \<or> stb_write_jpg_to_memory enc ha out_a len_a w hh comps px p = Inr ra
           \<and> stb_write_jpg_to_memory enc hb out_b len_b w hh comps px p = Inr rb"
  shows "retval ra = retval rb
         \<and> (retval ra = 1 \<longrightarrow> output_len_slot ra = output_len_slot rb
                               \<and> output_buffer ra = output_buffer rb)"
proof -
  from assms(2)
  have a: "stb_write_png_to_memory enc ha out_a len_a w hh comps px p = Inr ra"
    and b: "stb_write_png_to_memory enc hb out_b len_b w hh comps px p = Inr rb"
    unfolding jpg_adapter_is_png_adapter by blast+
  from assms(1) a b show ?thesis by (rule same_drops_same_output)
qed

theorem same_input_same_output_witness:
  "stb_write_png_to_memory (\<lambda>w hh comps px p. ([[1, 2, 3]], 1))
       \<lparr>blocks = Map.empty, nextblock = 0, replies = [Grant (\<lambda>i. 0)]\<rparr> 0 0 1 1 3 () 3
     = Inr \<lparr>mem = \<lparr>blocks = [1 \<mapsto> [1, 2, 3] @ replicate 4093 0], nextblock = 1, replies = []\<rparr>,
            output_slot = 1, output_len_slot = 3, retval = 1\<rparr>
   \<and> stb_write_png_to_memory (\<lambda>w hh comps px p. ([[1, 2, 3]], 1))
       \<lparr>blocks = [5 \<mapsto> [9]], nextblock = 5, replies = [Grant (\<lambda>i. 255)]\<rparr> 7 8 1 1 3 () 3
     = Inr \<lparr>mem = \<lparr>blocks = [5 \<mapsto> [9], 6 \<mapsto> [1, 2, 3] @ replicate 4093 255], nextblock = 6,
                    replies = []\<rparr>,
            output_slot = 6, output_len_slot = 3, retval = 1\<rparr>
   \<and> output_buffer \<lparr>mem = \<lparr>blocks = [1 \<mapsto> [1, 2, 3] @ replicate 4093 0], nextblock = 1,
                           replies = []\<rparr>,
            output_slot = 1, output_len_slot = 3, retval = 1\<rparr>
     = output_buffer \<lparr>mem = \<lparr>blocks = [5 \<mapsto> [9], 6 \<mapsto> [1, 2, 3] @ replicate 4093 255],
                           nextblock = 6, replies = []\<rparr>,
            output_slot = 6, output_len_slot = 3, retval = 1\<rparr>"
proof -
  let ?enc = "(\<lambda>w hh comps px p. ([[1, 2, 3]], 1)) :: unit encoder"
  let ?ha = "\<lparr>blocks = Map.empty, nextblock = 0, replies = [Grant (\<lambda>i. 0)]\<rparr>"
  let ?hb = "\<lparr>blocks = [5 \<mapsto> [9]], nextblock = 5, replies = [Grant (\<lambda>i. 255)]\<rparr>"
  let ?ra = "\<lparr>mem = \<lparr>blocks = [1 \<mapsto> [1, 2, 3] @ replicate 4093 0], nextblock = 1, replies = []\<rparr>,
            output_slot = 1, output_len_slot = 3, retval = 1\<rparr>"
  let ?rb = "\<lparr>mem = \<lparr>blocks = [5 \<mapsto> [9], 6 \<mapsto> [1, 2, 3] @ replicate 4093 255], nextblock = 6,
                    replies = []\<rparr>,
            output_slot = 6, output_len_slot = 3, retval = 1\<rparr>"
  have sa: "same_drops ?ha empty_ctx ?hb empty_ctx (fst (?enc 1 1 3 () 3))"
    by (simp add: refused_def write_callback_def empty_ctx_def double_until.simps realloc_def
      copy_and_advance_def memcpy_def Let_def map_replicate_const)
  have a: "stb_write_png_to_memory ?enc ?ha 0 0 1 1 3 () 3 = Inr ?ra"
    by (simp add: stb_write_png_to_memory_def stbi_write_png_to_func_def write_callback_def
      empty_ctx_def double_until.simps realloc_def copy_and_advance_def memcpy_def Let_def
      map_replicate_const)
  have b: "stb_write_png_to_memory ?enc ?hb 7 8 1 1 3 () 3 = Inr ?rb"
    by (simp add: stb_write_png_to_memory_def stbi_write_png_to_func_def write_callback_def
      empty_ctx_def double_until.simps realloc_def copy_and_advance_def memcpy_def Let_def
      map_replicate_const)
  from same_input_same_output[OF sa disjI1[OF conjI[OF a b]]] a b show ?thesis by simp
qed

section \<open>Termination of the doubling loop (C10)\<close>



end
